theory Spec2Isabelle
  imports Complex_Main "HOL-Library.Word"
begin

section \<open>Numeric arrays\<close>

text \<open>
  The banding estimator of \<^verbatim>\<open>experiments/correct_banding_dark_pixels.py\<close> and
  \<^verbatim>\<open>experiments/banding_fixer.py\<close> works on numpy arrays. An image is a
  two-dimensional \<^verbatim>\<open>uint16\<close> array, here the list of its rows; a profile is a
  one-dimensional \<^verbatim>\<open>float32\<close> array.

  A \<^verbatim>\<open>float32\<close> sample is a real number or \<^verbatim>\<open>nan\<close>. \<^verbatim>\<open>nan\<close> is kept because
  the code produces it from integer samples (the median of an empty slice, the mean of
  an empty array) and every later operation propagates it. Infinite samples cannot
  arise from \<^verbatim>\<open>uint16\<close> data; the one infinity of the code, the optimizer's initial
  \<^verbatim>\<open>float('inf')\<close>, has a type of its own below.

  The arithmetic comes in two layers. Up to the section on \<^verbatim>\<open>float32\<close> arithmetic an
  operation on finite samples is the operation of the reals: what is proved of these
  functions is about shapes, errors, the order of the candidates, comparisons and
  clipping. That section gives the smoother and the body of the optimizer's loop again
  with every operation rounded to \<^verbatim>\<open>binary32\<close>; what equates the computed samples
  with real-number expressions, or bounds their distance, is proved of those.
\<close>

datatype f32 = is_Fin: Fin (the_Fin: real) | NaN

datatype np_error = ValueError | IndexError

type_synonym u16 = "16 word"

fun fadd :: "f32 \<Rightarrow> f32 \<Rightarrow> f32" where
  "fadd (Fin a) (Fin b) = Fin (a + b)"
| "fadd _ _ = NaN"

fun fsub :: "f32 \<Rightarrow> f32 \<Rightarrow> f32" where
  "fsub (Fin a) (Fin b) = Fin (a - b)"
| "fsub _ _ = NaN"

fun fmul :: "f32 \<Rightarrow> f32 \<Rightarrow> f32" where
  "fmul (Fin a) (Fin b) = Fin (a * b)"
| "fmul _ _ = NaN"

definition fsum :: "f32 list \<Rightarrow> f32" where
  "fsum xs = foldr fadd xs (Fin 0)"

text \<open>\<^verbatim>\<open>a > t\<close> for a float32 \<open>a\<close> and a Python float \<open>t\<close>: false on \<^verbatim>\<open>nan\<close>.\<close>

fun fgt :: "f32 \<Rightarrow> real \<Rightarrow> bool" where
  "fgt (Fin a) t = (a > t)"
| "fgt NaN t = False"

text \<open>\<^verbatim>\<open>arr.astype(np.float32)\<close> on a \<^verbatim>\<open>uint16\<close> sample.\<close>

definition astype_f32 :: "u16 \<Rightarrow> f32" where
  "astype_f32 s = Fin (real (unat s))"

text \<open>
  \<^verbatim>\<open>np.clip(a, lo, hi)\<close> is \<^verbatim>\<open>minimum(maximum(a, lo), hi)\<close> and keeps \<^verbatim>\<open>nan\<close>.
  \<^verbatim>\<open>arr.astype(np.uint16)\<close> truncates a finite sample toward zero and keeps the low
  16 bits; what it makes of \<^verbatim>\<open>nan\<close> is left to the platform, so that value is the
  parameter \<open>nan16\<close>.
\<close>

fun np_clip :: "real \<Rightarrow> real \<Rightarrow> f32 \<Rightarrow> f32" where
  "np_clip lo hi (Fin a) = Fin (min (max a lo) hi)"
| "np_clip lo hi NaN = NaN"

fun astype_u16 :: "u16 \<Rightarrow> f32 \<Rightarrow> u16" where
  "astype_u16 nan16 (Fin a) = word_of_int (if 0 \<le> a then \<lfloor>a\<rfloor> else \<lceil>a\<rceil>)"
| "astype_u16 nan16 NaN = nan16"

text \<open>
  \<^verbatim>\<open>np.median\<close> of one line: \<^verbatim>\<open>nan\<close> for an empty line or one that holds a
  \<^verbatim>\<open>nan\<close>, else the middle of the sorted line (the mean of the two middle samples
  when their number is even).
\<close>

definition np_median :: "f32 list \<Rightarrow> f32" where
  "np_median xs =
     (if xs = [] \<or> \<not> list_all is_Fin xs then NaN
      else let part = sort (map the_Fin xs); n = length part
           in if odd n then Fin (part ! (n div 2))
              else Fin ((part ! (n div 2 - 1) + part ! (n div 2)) / 2))"

text \<open>\<^verbatim>\<open>np.std\<close>: the root of the mean squared deviation from the mean.\<close>

definition np_std :: "f32 list \<Rightarrow> f32" where
  "np_std xs =
     (if xs = [] \<or> \<not> list_all is_Fin xs then NaN
      else let v = map the_Fin xs; n = real (length v); m = sum_list v / n
           in Fin (sqrt (sum_list (map (\<lambda>x. \<bar>x - m\<bar> ^ 2) v) / n)))"

subsection \<open>Slicing\<close>

text \<open>
  A bound of a Python slice with step 1 (\<^verbatim>\<open>slice.indices\<close>): a negative bound counts
  from the end, and the result is clamped to \<open>[0, n]\<close>. A slice never raises.
\<close>

definition slice_index :: "nat \<Rightarrow> int \<Rightarrow> nat" where
  "slice_index n i =
     (if i < 0 then (if i + int n < 0 then 0 else nat (i + int n))
      else if int n < i then n else nat i)"

definition py_slice :: "'a list \<Rightarrow> int \<Rightarrow> int \<Rightarrow> 'a list" where
  "py_slice xs a b =
     (let start = slice_index (length xs) a; stop = slice_index (length xs) b
      in take (stop - start) (drop start xs))"

text \<open>\<^verbatim>\<open>img.shape[1]\<close>, and \<^verbatim>\<open>img[:, a:b]\<close>.\<close>

definition shape1 :: "'a list list \<Rightarrow> nat" where
  "shape1 img = (case img of [] \<Rightarrow> 0 | row # _ \<Rightarrow> length row)"

definition np_cols :: "'a list list \<Rightarrow> int \<Rightarrow> int \<Rightarrow> 'a list list" where
  "np_cols img a b = map (\<lambda>row. py_slice row a b) img"

text \<open>\<^verbatim>\<open>img - band[:, np.newaxis]\<close>: line \<open>r\<close> of the image minus \<open>band[r]\<close>.\<close>

definition sub_rows :: "f32 list list \<Rightarrow> f32 list \<Rightarrow> f32 list list" where
  "sub_rows img band = map (\<lambda>(row, b). map (\<lambda>v. fsub v b) row) (zip img band)"

definition sub_arr :: "f32 list \<Rightarrow> f32 list \<Rightarrow> f32 list" where
  "sub_arr xs ys = map (\<lambda>(x, y). fsub x y) (zip xs ys)"

section \<open>The line-profile smoother\<close>

text \<open>
  \<^verbatim>\<open>np.pad(x, (l, r), mode="edge")\<close> on a non-empty array, and
  \<^verbatim>\<open>np.convolve(a, v, mode="valid")\<close>, which raises on an empty argument, swaps the
  arguments when the second is longer, and returns
  \<open>y[i] = \<Sum>j. a[i + len v - 1 - j] * v[j]\<close> for \<open>i \<le> len a - len v\<close>.
\<close>

definition np_pad_edge :: "f32 list \<Rightarrow> nat \<Rightarrow> nat \<Rightarrow> f32 list" where
  "np_pad_edge x l r = replicate l (hd x) @ x @ replicate r (last x)"

definition np_convolve_valid :: "f32 list \<Rightarrow> f32 list \<Rightarrow> np_error + f32 list" where
  "np_convolve_valid a v =
     (if a = [] \<or> v = [] then Inl ValueError
      else let (a, v) = (if length a < length v then (v, a) else (a, v));
               n = length v
           in Inr (map (\<lambda>i. fsum (map (\<lambda>j. fmul (a ! (i + n - 1 - j)) (v ! j)) [0..<n]))
                     [0..<length a - n + 1]))"

text \<open>
  \<^verbatim>\<open>moving_average_1d(x, win)\<close>, the same text in both scripts. \<^verbatim>\<open>np.pad\<close> with
  mode \<^verbatim>\<open>edge\<close> raises \<^verbatim>\<open>ValueError\<close> on an empty array when a pad width is not
  zero, which it is for \<open>win \<ge> 3\<close>.
\<close>

definition moving_average_1d :: "f32 list \<Rightarrow> int \<Rightarrow> np_error + f32 list" where
  "moving_average_1d x win =
     (if win < 3 then Inr x
      else let k = replicate (nat win) (Fin (1 / real_of_int win));
               pad_left = win div 2;
               pad_right = win - 1 - pad_left
           in if x = [] then Inl ValueError
              else np_convolve_valid (np_pad_edge x (nat pad_left) (nat pad_right)) k)"

section \<open>Detector, optimizer and corrector\<close>

text \<open>\<^verbatim>\<open>detect_banding(img_u16, black_w, black_offset, smooth_win, threshold)\<close>.\<close>

definition detect_banding ::
  "u16 list list \<Rightarrow> int \<Rightarrow> int \<Rightarrow> int \<Rightarrow> real \<Rightarrow> np_error + (bool \<times> f32)" where
  "detect_banding img_u16 black_w black_offset smooth_win threshold =
     (let img = map (map astype_f32) img_u16;
          w = int (shape1 img);
          stripe = np_cols img (w - black_offset - black_w) (w - black_offset);
          ref = map np_median stripe
      in case moving_average_1d ref smooth_win of
           Inl e \<Rightarrow> Inl e
         | Inr ref_slow \<Rightarrow>
             let band = sub_arr ref ref_slow;
                 band_std = np_std band;
                 has_banding = fgt band_std threshold
             in Inr (has_banding, band_std))"

text \<open>
  The optimizer. Python's \<^verbatim>\<open>range(start, stop, step)\<close> for a positive step; the
  default candidates; the best score so far, which starts at \<^verbatim>\<open>float('inf')\<close>; and
  \<^verbatim>\<open>score < best_score\<close>.
\<close>

definition py_range :: "int \<Rightarrow> int \<Rightarrow> int \<Rightarrow> int list" where
  "py_range start stop step =
     map (\<lambda>k. start + step * int k) [0..<nat ((stop - start + step - 1) div step)]"

definition default_candidates :: "nat \<Rightarrow> int list" where
  "default_candidates h =
     (let max_win = min 512 (int h div 4);
          candidates = py_range 10 (max_win + 1) 5
      in if length candidates = 0 then [10, 32, 64, 128, 256] else candidates)"

datatype best_score = PosInf | Score f32

fun score_less :: "f32 \<Rightarrow> best_score \<Rightarrow> bool" where
  "score_less (Fin a) PosInf = True"
| "score_less (Fin a) (Score (Fin b)) = (a < b)"
| "score_less _ _ = False"

text \<open>The body of the loop up to \<^verbatim>\<open>corrected_ref\<close>, and the score of one candidate.\<close>

definition corrected_ref_of :: "f32 list list \<Rightarrow> f32 list \<Rightarrow> int \<Rightarrow> np_error + f32 list" where
  "corrected_ref_of stripe ref smooth_win =
     (case moving_average_1d ref smooth_win of
        Inl e \<Rightarrow> Inl e
      | Inr ref_slow \<Rightarrow>
          let band = sub_arr ref ref_slow;
              corrected_stripe = sub_rows stripe band
          in Inr (map np_median corrected_stripe))"

definition window_score :: "f32 list list \<Rightarrow> f32 list \<Rightarrow> int \<Rightarrow> np_error + f32" where
  "window_score stripe ref smooth_win =
     (case corrected_ref_of stripe ref smooth_win of
        Inl e \<Rightarrow> Inl e
      | Inr corrected_ref \<Rightarrow> Inr (np_std corrected_ref))"

fun candidates_loop ::
  "f32 list list \<Rightarrow> f32 list \<Rightarrow> int list \<Rightarrow> int \<times> best_score \<Rightarrow> np_error + (int \<times> best_score)" where
  "candidates_loop stripe ref [] (best_window, best) = Inr (best_window, best)"
| "candidates_loop stripe ref (smooth_win # rest) (best_window, best) =
     (case window_score stripe ref smooth_win of
        Inl e \<Rightarrow> Inl e
      | Inr score \<Rightarrow>
          candidates_loop stripe ref rest
            (if score_less score best then (smooth_win, Score score) else (best_window, best)))"

text \<open>
  \<^verbatim>\<open>optimize_smooth_window(img_u16, black_w, black_offset, candidates)\<close>;
  \<^verbatim>\<open>candidates[0]\<close> raises \<^verbatim>\<open>IndexError\<close> on an empty list.
\<close>

definition optimize_smooth_window ::
  "u16 list list \<Rightarrow> int \<Rightarrow> int \<Rightarrow> int list option \<Rightarrow> np_error + (int \<times> best_score)" where
  "optimize_smooth_window img_u16 black_w black_offset candidates =
     (let candidates = (case candidates of
                          None \<Rightarrow> default_candidates (length img_u16)
                        | Some cs \<Rightarrow> cs);
          img = map (map astype_f32) img_u16;
          w = int (shape1 img);
          stripe = np_cols img (w - black_offset - black_w) (w - black_offset);
          ref = map np_median stripe
      in case candidates of
           [] \<Rightarrow> Inl IndexError
         | c0 # _ \<Rightarrow> candidates_loop stripe ref candidates (c0, PosInf))"

text \<open>
  \<^verbatim>\<open>correct_banding\<close> of \<^verbatim>\<open>correct_banding_dark_pixels.py\<close>. The correction proper
  comes first here, as \<open>apply_correction\<close>: lines 153 to 187. Its diagnostics only
  print, but \<^verbatim>\<open>np.max(corrected_ref)\<close> raises \<^verbatim>\<open>ValueError\<close> on an empty array.
\<close>

definition apply_correction ::
  "u16 \<Rightarrow> u16 list list \<Rightarrow> int \<Rightarrow> int \<Rightarrow> int \<Rightarrow> np_error + (u16 list list \<times> bool)" where
  "apply_correction nan16 img_u16 black_w black_offset smooth_win =
     (let img = map (map astype_f32) img_u16;
          w = int (shape1 img);
          col_start = w - black_offset - black_w;
          col_end = w - black_offset;
          stripe = np_cols img col_start col_end;
          ref = map np_median stripe
      in case moving_average_1d ref smooth_win of
           Inl e \<Rightarrow> Inl e
         | Inr ref_slow \<Rightarrow>
             let band = sub_arr ref ref_slow;
                 corrected = sub_rows img band;
                 corrected_stripe = np_cols corrected (w - black_offset - black_w) (w - black_offset);
                 corrected_ref = map np_median corrected_stripe
             in if corrected_ref = [] then Inl ValueError
                else Inr (map (map (\<lambda>v. astype_u16 nan16 (np_clip 0 65535 v))) corrected, True))"

definition correct_banding ::
  "u16 \<Rightarrow> u16 list list \<Rightarrow> int \<Rightarrow> int \<Rightarrow> int \<Rightarrow> bool \<Rightarrow> real \<Rightarrow> bool
     \<Rightarrow> np_error + (u16 list list \<times> bool)" where
  "correct_banding nan16 img_u16 black_w black_offset smooth_win auto_detect threshold auto_optimize =
     (case (if auto_optimize
            then (case optimize_smooth_window img_u16 black_w black_offset None of
                    Inl e \<Rightarrow> Inl e
                  | Inr (best_window, _) \<Rightarrow> Inr best_window)
            else Inr smooth_win) of
        Inl e \<Rightarrow> Inl e
      | Inr smooth_win \<Rightarrow>
          (case (if auto_detect
                 then (case detect_banding img_u16 black_w black_offset smooth_win threshold of
                         Inl e \<Rightarrow> Inl e
                       | Inr (has_banding, band_std) \<Rightarrow> Inr (\<not> has_banding))
                 else Inr False) of
             Inl e \<Rightarrow> Inl e
           | Inr skip \<Rightarrow>
               if skip then Inr (img_u16, False)
               else apply_correction nan16 img_u16 black_w black_offset smooth_win))"

text \<open>
  \<^verbatim>\<open>correct_banding\<close> of \<^verbatim>\<open>banding_fixer.py\<close>: the stripe is \<^verbatim>\<open>img[:, -BLACK_W:]\<close>,
  the window is \<^verbatim>\<open>SMOOTH_WIN\<close>.
\<close>

definition BLACK_W :: int where
  "BLACK_W = 10"

definition SMOOTH_WIN :: int where
  "SMOOTH_WIN = 128"

definition fixer_correct_banding :: "u16 \<Rightarrow> u16 list list \<Rightarrow> np_error + u16 list list" where
  "fixer_correct_banding nan16 img_u16 =
     (let img = map (map astype_f32) img_u16;
          stripe = map (\<lambda>row. py_slice row (- BLACK_W) (int (length row))) img;
          ref = map np_median stripe
      in case moving_average_1d ref SMOOTH_WIN of
           Inl e \<Rightarrow> Inl e
         | Inr ref_slow \<Rightarrow>
             let band = sub_arr ref ref_slow;
                 corrected = sub_rows img band
             in Inr (map (map (\<lambda>v. astype_u16 nan16 (np_clip 0 65535 v))) corrected))"

section \<open>Arrays as objects\<close>

text \<open>
  For what a call does to the caller's array, arrays are objects: a store maps
  addresses to arrays, and \<open>next_free\<close> is the first address not yet handed out.
  Every numpy call of the three functions that returns a new array (\<^verbatim>\<open>astype\<close>,
  \<^verbatim>\<open>copy\<close>, \<^verbatim>\<open>np.median\<close>, \<^verbatim>\<open>np.ones\<close>, \<^verbatim>\<open>np.pad\<close>, \<^verbatim>\<open>np.convolve\<close>,
  \<^verbatim>\<open>np.clip\<close>, arithmetic) puts its result into a new cell. A slice
  (\<^verbatim>\<open>img[:, a:b]\<close>, \<^verbatim>\<open>band[:, np.newaxis]\<close>) is a view: it gets no cell and is read
  through its base. The text of the functions has no item assignment, no augmented
  assignment and no \<^verbatim>\<open>out=\<close> argument, so there is no operation that overwrites a
  cell. The functions below are the ones above, statement by statement, with the
  image given by its address.
\<close>

datatype ndarray = U16 "u16 list list" | F32 "f32 list list" | F32_1 "f32 list"

record store =
  cells :: "nat \<Rightarrow> ndarray option"
  next_free :: nat

definition put :: "ndarray \<Rightarrow> store \<Rightarrow> store" where
  "put v s = s\<lparr>cells := (cells s)(next_free s \<mapsto> v), next_free := Suc (next_free s)\<rparr>"

definition get_u16 :: "store \<Rightarrow> nat \<Rightarrow> u16 list list" where
  "get_u16 s p = (case cells s p of Some (U16 a) \<Rightarrow> a | _ \<Rightarrow> [])"

definition get_f32 :: "store \<Rightarrow> nat \<Rightarrow> f32 list list" where
  "get_f32 s p = (case cells s p of Some (F32 a) \<Rightarrow> a | _ \<Rightarrow> [])"

definition get_f32_1 :: "store \<Rightarrow> nat \<Rightarrow> f32 list" where
  "get_f32_1 s p = (case cells s p of Some (F32_1 a) \<Rightarrow> a | _ \<Rightarrow> [])"

definition moving_average_1d_st :: "nat \<Rightarrow> int \<Rightarrow> store \<Rightarrow> (np_error + nat) \<times> store" where
  "moving_average_1d_st x win s =
     (if win < 3
      then let y = next_free s; s = put (F32_1 (get_f32_1 s x)) s in (Inr y, s)
      else let x' = next_free s; s = put (F32_1 (get_f32_1 s x)) s;
               ones = next_free s; s = put (F32_1 (replicate (nat win) (Fin 1))) s;
               k = next_free s;
               s = put (F32_1 (map (\<lambda>c. fmul c (Fin (1 / real_of_int win))) (get_f32_1 s ones))) s;
               pad_left = win div 2;
               pad_right = win - 1 - pad_left
           in if get_f32_1 s x' = [] then (Inl ValueError, s)
              else let xp = next_free s;
                       s = put (F32_1 (np_pad_edge (get_f32_1 s x') (nat pad_left) (nat pad_right))) s
                   in case np_convolve_valid (get_f32_1 s xp) (get_f32_1 s k) of
                        Inl e \<Rightarrow> (Inl e, s)
                      | Inr v \<Rightarrow> let y = next_free s; s = put (F32_1 v) s in (Inr y, s))"

definition detect_banding_st ::
  "nat \<Rightarrow> int \<Rightarrow> int \<Rightarrow> int \<Rightarrow> real \<Rightarrow> store \<Rightarrow> (np_error + bool \<times> f32) \<times> store" where
  "detect_banding_st img_u16 black_w black_offset smooth_win threshold s =
     (let img = next_free s; s = put (F32 (map (map astype_f32) (get_u16 s img_u16))) s;
          w = int (shape1 (get_f32 s img));
          ref = next_free s;
          s = put (F32_1 (map np_median
                 (np_cols (get_f32 s img) (w - black_offset - black_w) (w - black_offset)))) s
      in case moving_average_1d_st ref smooth_win s of
           (Inl e, s) \<Rightarrow> (Inl e, s)
         | (Inr ref_slow, s) \<Rightarrow>
             let band = next_free s;
                 s = put (F32_1 (sub_arr (get_f32_1 s ref) (get_f32_1 s ref_slow))) s;
                 band_std = np_std (get_f32_1 s band);
                 has_banding = fgt band_std threshold
             in (Inr (has_banding, band_std), s))"

fun candidates_loop_st ::
  "nat \<Rightarrow> int \<Rightarrow> int \<Rightarrow> nat \<Rightarrow> int list \<Rightarrow> int \<times> best_score \<Rightarrow> store
     \<Rightarrow> (np_error + int \<times> best_score) \<times> store" where
  "candidates_loop_st img a b ref [] (best_window, best) s = (Inr (best_window, best), s)"
| "candidates_loop_st img a b ref (smooth_win # rest) (best_window, best) s =
     (case moving_average_1d_st ref smooth_win s of
        (Inl e, s) \<Rightarrow> (Inl e, s)
      | (Inr ref_slow, s) \<Rightarrow>
          let band = next_free s;
              s = put (F32_1 (sub_arr (get_f32_1 s ref) (get_f32_1 s ref_slow))) s;
              corrected_stripe = next_free s;
              s = put (F32 (sub_rows (np_cols (get_f32 s img) a b) (get_f32_1 s band))) s;
              corrected_ref = next_free s;
              s = put (F32_1 (map np_median (get_f32 s corrected_stripe))) s;
              score = np_std (get_f32_1 s corrected_ref)
          in candidates_loop_st img a b ref rest
               (if score_less score best then (smooth_win, Score score) else (best_window, best)) s)"

definition optimize_smooth_window_st ::
  "nat \<Rightarrow> int \<Rightarrow> int \<Rightarrow> int list option \<Rightarrow> store \<Rightarrow> (np_error + int \<times> best_score) \<times> store" where
  "optimize_smooth_window_st img_u16 black_w black_offset candidates s =
     (let candidates = (case candidates of
                          None \<Rightarrow> default_candidates (length (get_u16 s img_u16))
                        | Some cs \<Rightarrow> cs);
          img = next_free s; s = put (F32 (map (map astype_f32) (get_u16 s img_u16))) s;
          w = int (shape1 (get_f32 s img));
          ref = next_free s;
          s = put (F32_1 (map np_median
                 (np_cols (get_f32 s img) (w - black_offset - black_w) (w - black_offset)))) s
      in case candidates of
           [] \<Rightarrow> (Inl IndexError, s)
         | c0 # _ \<Rightarrow>
             candidates_loop_st img (w - black_offset - black_w) (w - black_offset) ref
               candidates (c0, PosInf) s)"

definition apply_correction_st ::
  "u16 \<Rightarrow> nat \<Rightarrow> int \<Rightarrow> int \<Rightarrow> int \<Rightarrow> store \<Rightarrow> (np_error + nat \<times> bool) \<times> store" where
  "apply_correction_st nan16 img_u16 black_w black_offset smooth_win s =
     (let img = next_free s; s = put (F32 (map (map astype_f32) (get_u16 s img_u16))) s;
          w = int (shape1 (get_f32 s img));
          col_start = w - black_offset - black_w;
          col_end = w - black_offset;
          ref = next_free s;
          s = put (F32_1 (map np_median (np_cols (get_f32 s img) col_start col_end))) s
      in case moving_average_1d_st ref smooth_win s of
           (Inl e, s) \<Rightarrow> (Inl e, s)
         | (Inr ref_slow, s) \<Rightarrow>
             let band = next_free s;
                 s = put (F32_1 (sub_arr (get_f32_1 s ref) (get_f32_1 s ref_slow))) s;
                 corrected = next_free s;
                 s = put (F32 (sub_rows (get_f32 s img) (get_f32_1 s band))) s;
                 corrected_ref = next_free s;
                 s = put (F32_1 (map np_median
                        (np_cols (get_f32 s corrected) (w - black_offset - black_w)
                           (w - black_offset)))) s
             in if get_f32_1 s corrected_ref = [] then (Inl ValueError, s)
                else let clipped = next_free s;
                         s = put (F32 (map (map (np_clip 0 65535)) (get_f32 s corrected))) s;
                         out = next_free s;
                         s = put (U16 (map (map (astype_u16 nan16)) (get_f32 s clipped))) s
                     in (Inr (out, True), s))"

definition correct_banding_st ::
  "u16 \<Rightarrow> nat \<Rightarrow> int \<Rightarrow> int \<Rightarrow> int \<Rightarrow> bool \<Rightarrow> real \<Rightarrow> bool \<Rightarrow> store
     \<Rightarrow> (np_error + nat \<times> bool) \<times> store" where
  "correct_banding_st nan16 img_u16 black_w black_offset smooth_win auto_detect threshold
     auto_optimize s =
     (case (if auto_optimize
            then (case optimize_smooth_window_st img_u16 black_w black_offset None s of
                    (Inl e, s) \<Rightarrow> (Inl e, s)
                  | (Inr (best_window, _), s) \<Rightarrow> (Inr best_window, s))
            else (Inr smooth_win, s)) of
        (Inl e, s) \<Rightarrow> (Inl e, s)
      | (Inr smooth_win, s) \<Rightarrow>
          (case (if auto_detect
                 then (case detect_banding_st img_u16 black_w black_offset smooth_win threshold s of
                         (Inl e, s) \<Rightarrow> (Inl e, s)
                       | (Inr (has_banding, band_std), s) \<Rightarrow> (Inr (\<not> has_banding), s))
                 else (Inr False, s)) of
             (Inl e, s) \<Rightarrow> (Inl e, s)
           | (Inr skip, s) \<Rightarrow>
               if skip
               then let out = next_free s; s = put (U16 (get_u16 s img_u16)) s
                    in (Inr (out, False), s)
               else apply_correction_st nan16 img_u16 black_w black_offset smooth_win s))"

text \<open>
  \<open>extends s s'\<close>: the store \<open>s'\<close> holds every array of \<open>s\<close> unchanged, at the same
  address. \<open>one_image_store img\<close> holds the image at address 0 and nothing else.
\<close>

definition extends :: "store \<Rightarrow> store \<Rightarrow> bool" where
  "extends s s' \<longleftrightarrow> next_free s \<le> next_free s' \<and> (\<forall>a<next_free s. cells s' a = cells s a)"

definition one_image_store :: "u16 list list \<Rightarrow> store" where
  "one_image_store img = \<lparr>cells = (\<lambda>a. if a = 0 then Some (U16 img) else None), next_free = 1\<rparr>"

section \<open>Notions the statements use\<close>

text \<open>
  The reference stripe and its median profile, as each of the three functions above
  computes them from the image, the stripe width and the offset.
\<close>

definition reference_stripe :: "u16 list list \<Rightarrow> int \<Rightarrow> int \<Rightarrow> f32 list list" where
  "reference_stripe img_u16 black_w black_offset =
     (let img = map (map astype_f32) img_u16;
          w = int (shape1 img)
      in np_cols img (w - black_offset - black_w) (w - black_offset))"

definition reference_profile :: "u16 list list \<Rightarrow> int \<Rightarrow> int \<Rightarrow> f32 list" where
  "reference_profile img_u16 black_w black_offset =
     map np_median (reference_stripe img_u16 black_w black_offset)"

text \<open>
  The specification's smoother, in its own words: sample \<open>k\<close> of the profile extended
  on both sides by replicating its edge values, and the plain arithmetic mean of the
  \<open>win\<close> samples of that extension from \<open>i - win div 2\<close> on.
\<close>

definition edge_at :: "real list \<Rightarrow> int \<Rightarrow> real" where
  "edge_at xs k = xs ! nat (max 0 (min (int (length xs) - 1) k))"

definition rolling_mean_edge :: "real list \<Rightarrow> int \<Rightarrow> nat \<Rightarrow> real" where
  "rolling_mean_edge xs win i =
     (\<Sum>j<nat win. edge_at xs (int i - win div 2 + int j)) / real_of_int win"

text \<open>
  What clipping to \<open>[0, 65535]\<close> and truncating makes of a finite sample: the sample
  saturated at both ends of the 16-bit range, as an integer.
\<close>

definition saturate_u16 :: "real \<Rightarrow> int" where
  "saturate_u16 v = (if v \<le> 0 then 0 else if 65535 \<le> v then 65535 else \<lfloor>v\<rfloor>)"

section \<open>Arithmetic in \<^verbatim>\<open>float32\<close>\<close>

text \<open>
  IEEE 754 \<^verbatim>\<open>binary32\<close> rounds the exact result of an operation to the nearest number
  with a significand of 24 bits, a tie to the one whose significand is even:
  \<open>round_even\<close> on the integers, \<open>fl32\<close> on the reals, where the unit in the last
  place of \<open>x\<close> is \<open>2 ^ (e - 23)\<close> for \<open>2 ^ e \<le> \<bar>x\<bar> < 2 ^ (e + 1)\<close>.

  \<open>fl32\<close> has no bound on the exponent: overflow to infinity and gradual underflow are
  not in it. Medians of \<^verbatim>\<open>uint16\<close> samples and the weight \<open>1 / win\<close> of a window below
  \<open>2 ^ 24\<close> are far inside the normal range, and a sum or difference of \<^verbatim>\<open>binary32\<close>
  numbers that falls below the normal range is exact. For a profile that is not derived
  from an image the statements ask for samples that are \<^verbatim>\<open>binary32\<close> numbers of a
  magnitude between \<open>2 ^ - 100\<close> and \<open>2 ^ 100\<close>, or zero (\<open>f32_moderate\<close> below).
\<close>

definition round_even :: "real \<Rightarrow> int" where
  "round_even x =
     (let f = \<lfloor>x\<rfloor>; r = x - of_int f
      in if r < 1 / 2 then f else if 1 / 2 < r then f + 1 else if even f then f else f + 1)"

definition fl32 :: "real \<Rightarrow> real" where
  "fl32 x =
     (if x = 0 then 0
      else let e = \<lfloor>log 2 \<bar>x\<bar>\<rfloor>; ulp = 2 powr of_int (e - 23)
           in of_int (round_even (x / ulp)) * ulp)"

fun fadd32 :: "f32 \<Rightarrow> f32 \<Rightarrow> f32" where
  "fadd32 (Fin a) (Fin b) = Fin (fl32 (a + b))"
| "fadd32 _ _ = NaN"

fun fsub32 :: "f32 \<Rightarrow> f32 \<Rightarrow> f32" where
  "fsub32 (Fin a) (Fin b) = Fin (fl32 (a - b))"
| "fsub32 _ _ = NaN"

fun fmul32 :: "f32 \<Rightarrow> f32 \<Rightarrow> f32" where
  "fmul32 (Fin a) (Fin b) = Fin (fl32 (a * b))"
| "fmul32 _ _ = NaN"

text \<open>
  \<^verbatim>\<open>np.median\<close> of a \<^verbatim>\<open>float32\<close> line: the middle sample of the sorted line as it
  is, or \<^verbatim>\<open>np.mean\<close> of the two middle samples, which adds them in \<^verbatim>\<open>float32\<close> and
  divides the sum by 2.
\<close>

definition np_median_f32 :: "f32 list \<Rightarrow> f32" where
  "np_median_f32 xs =
     (if xs = [] \<or> \<not> list_all is_Fin xs then NaN
      else let part = sort (map the_Fin xs); n = length part
           in if odd n then Fin (part ! (n div 2))
              else Fin (fl32 (fl32 (part ! (n div 2 - 1) + part ! (n div 2)) / 2)))"

text \<open>
  \<^verbatim>\<open>np.convolve(a, v, mode="valid")\<close> on \<^verbatim>\<open>float32\<close> arrays correlates \<open>a\<close> with
  the reversed \<open>v\<close>: output \<open>i\<close> is the dot product of \<open>a[i : i + n]\<close> with it. Which
  routine computes the dot product depends on the length of the kernel and on the
  build: numpy's own loop for a kernel of at most 11 weights, the \<^verbatim>\<open>dot\<close> function of
  the type, which is the BLAS routine \<^verbatim>\<open>sdot\<close> where numpy is linked against one, for a
  longer kernel. The routines associate the additions differently and need not agree in
  the last bits, so the routine is a parameter \<open>dot\<close> of what follows.

  \<open>dot_seq32\<close> is numpy's own loop: it starts from 0 and adds the rounded products from
  the first to the last, rounding after every addition. \<open>dot_f32_ok\<close> is the error bound
  asked of a routine where a statement needs one: the result is off the exact dot product
  by at most \<open>(1 + 2 ^ - 24) ^ (2 * n) - 1\<close> times the sum of the absolute products, for
  \<open>n\<close> terms. A dot product with \<^verbatim>\<open>nan\<close> among its arguments is \<^verbatim>\<open>nan\<close>.
\<close>

type_synonym dot_impl = "real list \<Rightarrow> real list \<Rightarrow> real"

definition dot_seq32 :: dot_impl where
  "dot_seq32 as bs = foldl (\<lambda>acc (a, b). fl32 (acc + fl32 (a * b))) 0 (zip as bs)"


definition fdot :: "dot_impl \<Rightarrow> f32 list \<Rightarrow> f32 list \<Rightarrow> f32" where
  "fdot dot as bs =
     (if list_all is_Fin as \<and> list_all is_Fin bs
      then Fin (dot (map the_Fin as) (map the_Fin bs)) else NaN)"

definition np_convolve_valid_f32 ::
  "dot_impl \<Rightarrow> f32 list \<Rightarrow> f32 list \<Rightarrow> np_error + f32 list" where
  "np_convolve_valid_f32 dot a v =
     (if a = [] \<or> v = [] then Inl ValueError
      else let (a, v) = (if length a < length v then (v, a) else (a, v));
               n = length v
           in Inr (map (\<lambda>i. fdot dot (take n (drop i a)) (rev v)) [0..<length a - n + 1]))"

text \<open>
  \<^verbatim>\<open>moving_average_1d\<close>: the kernel \<^verbatim>\<open>np.ones(win, dtype=np.float32) / win\<close> holds
  \<open>win\<close> times the quotient of 1 by \<open>win\<close> as a \<^verbatim>\<open>float32\<close>, rounded.
\<close>

definition moving_average_1d_f32 :: "dot_impl \<Rightarrow> f32 list \<Rightarrow> int \<Rightarrow> np_error + f32 list" where
  "moving_average_1d_f32 dot x win =
     (if win < 3 then Inr x
      else let k = replicate (nat win) (Fin (fl32 (1 / fl32 (real_of_int win))));
               pad_left = win div 2;
               pad_right = win - 1 - pad_left
           in if x = [] then Inl ValueError
              else np_convolve_valid_f32 dot (np_pad_edge x (nat pad_left) (nat pad_right)) k)"

text \<open>
  The body of the optimizer's loop up to \<^verbatim>\<open>corrected_ref\<close>: \<^verbatim>\<open>ref - ref_slow\<close> and
  \<^verbatim>\<open>stripe - band[:, np.newaxis]\<close> are subtractions of \<^verbatim>\<open>float32\<close> arrays.
\<close>

definition corrected_ref_of_f32 ::
  "dot_impl \<Rightarrow> f32 list list \<Rightarrow> f32 list \<Rightarrow> int \<Rightarrow> np_error + f32 list" where
  "corrected_ref_of_f32 dot stripe ref smooth_win =
     (case moving_average_1d_f32 dot ref smooth_win of
        Inl e \<Rightarrow> Inl e
      | Inr ref_slow \<Rightarrow>
          let band = map (\<lambda>(x, y). fsub32 x y) (zip ref ref_slow);
              corrected_stripe = map (\<lambda>(row, b). map (\<lambda>v. fsub32 v b) row) (zip stripe band)
          in Inr (map np_median_f32 corrected_stripe))"



section \<open>The smoother: results\<close>

lemma fsum_Fin: "fsum (map Fin rs) = Fin (sum_list rs)"
  by (induction rs) (simp_all add: fsum_def)

lemma np_convolve_valid_long:
  assumes "v \<noteq> []" "length v \<le> length a"
  shows "np_convolve_valid a v =
    Inr (map (\<lambda>i. fsum (map (\<lambda>j. fmul (a ! (i + length v - 1 - j)) (v ! j)) [0..<length v]))
           [0..<length a - length v + 1])"
  using assms by (auto simp add: np_convolve_valid_def Let_def simp del: upt_Suc)

lemma np_pad_edge_nth:
  assumes "xs \<noteq> []" "m < l + length xs + r"
  shows "np_pad_edge (map Fin xs) l r ! m = Fin (edge_at xs (int m - int l))"
proof -
  let ?n = "length xs"
  consider "m < l" | "l \<le> m" "m < l + ?n" | "l + ?n \<le> m" by linarith
  then show ?thesis
  proof cases
    case 1
    then show ?thesis using assms
      by (simp add: np_pad_edge_def nth_append edge_at_def hd_conv_nth)
  next
    case 2
    then have "nat (max 0 (min (int ?n - 1) (int m - int l))) = m - l" by auto
    moreover from 2 have "m - l < ?n" by linarith
    ultimately show ?thesis using 2 assms
      by (simp add: np_pad_edge_def nth_append edge_at_def)
  next
    case 3
    then have "nat (max 0 (min (int ?n - 1) (int m - int l))) = ?n - 1" using assms by auto
    with 3 show ?thesis using assms
      by (simp add: np_pad_edge_def nth_append edge_at_def last_conv_nth)
  qed
qed

lemma fsum_window:
  assumes "xs \<noteq> []" "3 \<le> win" "i < length xs"
  shows "fsum (map (\<lambda>j. fmul (np_pad_edge (map Fin xs) (nat (win div 2)) (nat (win - 1 - win div 2))
                              ! (i + nat win - 1 - j))
                         (replicate (nat win) (Fin (1 / real_of_int win)) ! j)) [0..<nat win])
         = Fin (rolling_mean_edge xs win i)"
proof -
  let ?w = "nat win" and ?l = "nat (win div 2)" and ?r = "nat (win - 1 - win div 2)"
  let ?g = "\<lambda>m. edge_at xs (int i - win div 2 + int m)"
  have lr: "?l + ?r + 1 = ?w" using assms(2) by linarith
  have tm: "fmul (np_pad_edge (map Fin xs) ?l ?r ! (i + ?w - 1 - j))
                (replicate ?w (Fin (1 / real_of_int win)) ! j)
              = Fin (?g (?w - Suc j) / real_of_int win)" if "j < ?w" for j
  proof -
    have "i + ?w - 1 - j < ?l + length xs + ?r" using that assms(3) lr by linarith
    then have "np_pad_edge (map Fin xs) ?l ?r ! (i + ?w - 1 - j)
               = Fin (edge_at xs (int (i + ?w - 1 - j) - int ?l))"
      by (rule np_pad_edge_nth [OF assms(1)])
    moreover have "int (i + ?w - 1 - j) - int ?l = int i - win div 2 + int (?w - Suc j)"
      using that assms(2) by linarith
    ultimately have "np_pad_edge (map Fin xs) ?l ?r ! (i + ?w - 1 - j)
               = Fin (?g (?w - Suc j))" by (simp only:)
    then show ?thesis using that by (simp only: nth_replicate fmul.simps) simp
  qed
  have "map (\<lambda>j. fmul (np_pad_edge (map Fin xs) ?l ?r ! (i + ?w - 1 - j))
                (replicate ?w (Fin (1 / real_of_int win)) ! j)) [0..<?w]
        = map Fin (map (\<lambda>j. ?g (?w - Suc j) / real_of_int win) [0..<?w])"
    using tm by simp
  then have "fsum (map (\<lambda>j. fmul (np_pad_edge (map Fin xs) ?l ?r ! (i + ?w - 1 - j))
                (replicate ?w (Fin (1 / real_of_int win)) ! j)) [0..<?w])
        = Fin (sum_list (map (\<lambda>j. ?g (?w - Suc j) / real_of_int win) [0..<?w]))"
    by (simp only: fsum_Fin)
  also have "sum_list (map (\<lambda>j. ?g (?w - Suc j) / real_of_int win) [0..<?w])
        = (\<Sum>j<?w. ?g (?w - Suc j) / real_of_int win)"
    by (simp add: interv_sum_list_conv_sum_set_nat atLeast0LessThan)
  also have "\<dots> = (\<Sum>j<?w. ?g (?w - Suc j)) / real_of_int win"
    by (simp add: sum_divide_distrib)
  also have "(\<Sum>j<?w. ?g (?w - Suc j)) = (\<Sum>j<?w. ?g j)"
    by (rule sum.nat_diff_reindex)
  finally show ?thesis by (simp add: rolling_mean_edge_def)
qed

lemma moving_average_1d_Fin:
  assumes "xs \<noteq> []" "3 \<le> win"
  shows "moving_average_1d (map Fin xs) win =
           Inr (map (\<lambda>i. Fin (rolling_mean_edge xs win i)) [0..<length xs])"
proof -
  let ?w = "nat win" and ?l = "nat (win div 2)" and ?r = "nat (win - 1 - win div 2)"
  let ?xp = "np_pad_edge (map Fin xs) ?l ?r" and ?k = "replicate ?w (Fin (1 / real_of_int win))"
  have lr: "?l + ?r + 1 = ?w" using assms(2) by linarith
  have "length ?xp = ?l + length xs + ?r" by (simp add: np_pad_edge_def)
  then have len: "length ?xp = length xs + ?w - 1" using lr by linarith
  have pos: "0 < length xs" using assms(1) by simp
  have k: "?k \<noteq> []" "length ?k \<le> length ?xp"
  proof -
    show "?k \<noteq> []" using assms(2) by auto
    have "?w \<le> length xs + ?w - 1" using pos by linarith
    then show "length ?k \<le> length ?xp" by (simp only: len length_replicate)
  qed
  have n: "length ?xp - ?w + 1 = length xs" using len pos assms(2) by simp
  have "moving_average_1d (map Fin xs) win = np_convolve_valid ?xp ?k"
    using assms by (simp add: moving_average_1d_def Let_def)
  also have "\<dots> = Inr (map (\<lambda>i. fsum (map (\<lambda>j. fmul (?xp ! (i + length ?k - 1 - j)) (?k ! j))
                              [0..<length ?k])) [0..<length ?xp - length ?k + 1])"
    by (rule np_convolve_valid_long [OF k])
  also have "\<dots> = Inr (map (\<lambda>i. fsum (map (\<lambda>j. fmul (?xp ! (i + ?w - 1 - j)) (?k ! j))
                              [0..<?w])) [0..<length xs])"
    by (simp only: n length_replicate)
  also have "\<dots> = Inr (map (\<lambda>i. Fin (rolling_mean_edge xs win i)) [0..<length xs])"
    using fsum_window [OF assms] by simp
  finally show ?thesis .
qed

lemma moving_average_1d_length:
  assumes "x \<noteq> []" "3 \<le> win"
  shows "\<exists>y. moving_average_1d x win = Inr y \<and> length y = length x"
proof -
  let ?w = "nat win" and ?l = "nat (win div 2)" and ?r = "nat (win - 1 - win div 2)"
  let ?xp = "np_pad_edge x ?l ?r" and ?k = "replicate ?w (Fin (1 / real_of_int win))"
  have lr: "?l + ?r + 1 = ?w" using assms(2) by linarith
  have "length ?xp = ?l + length x + ?r" by (simp add: np_pad_edge_def)
  then have len: "length ?xp = length x + ?w - 1" using lr by linarith
  have pos: "0 < length x" using assms(1) by simp
  have k: "?k \<noteq> []" "length ?k \<le> length ?xp"
  proof -
    show "?k \<noteq> []" using assms(2) by auto
    have "?w \<le> length x + ?w - 1" using pos by linarith
    then show "length ?k \<le> length ?xp" by (simp only: len length_replicate)
  qed
  have n: "length ?xp - ?w + 1 = length x" using len pos assms(2) by simp
  have "moving_average_1d x win = np_convolve_valid ?xp ?k"
    using assms by (simp add: moving_average_1d_def Let_def)
  then show ?thesis
    unfolding np_convolve_valid_long [OF k] using n by (simp del: upt_Suc)
qed

lemma moving_average_1d_error:
  "(\<exists>e. moving_average_1d x win = Inl e) \<longleftrightarrow> (x = [] \<and> 3 \<le> win)"
proof (cases "win < 3")
  case True
  then show ?thesis by (simp add: moving_average_1d_def)
next
  case False
  show ?thesis
  proof (cases "x = []")
    case True
    with False show ?thesis by (simp add: moving_average_1d_def Let_def)
  next
    case nonempty: False
    with False moving_average_1d_length [of x win] show ?thesis by auto
  qed
qed

lemma moving_average_1d_Inr_length:
  "moving_average_1d x win = Inr y \<Longrightarrow> length y = length x"
  using moving_average_1d_length [of x win]
  by (cases "win < 3"; cases "x = []") (auto simp: moving_average_1d_def Let_def)



section \<open>Reference profile, detector and corrector: auxiliary facts\<close>

lemma length_reference_profile [simp]:
  "length (reference_profile img bw off) = length img"
  by (simp add: reference_profile_def reference_stripe_def np_cols_def Let_def)

lemma reference_profile_Nil [simp]:
  "reference_profile img bw off = [] \<longleftrightarrow> img = []"
  using length_reference_profile [of img bw off] by (simp only: length_0_conv [symmetric])

lemma detect_banding_unfold:
  "detect_banding img bw off win th =
     (case moving_average_1d (reference_profile img bw off) win of
        Inl e \<Rightarrow> Inl e
      | Inr ref_slow \<Rightarrow>
          Inr (fgt (np_std (sub_arr (reference_profile img bw off) ref_slow)) th,
               np_std (sub_arr (reference_profile img bw off) ref_slow)))"
  by (simp add: detect_banding_def reference_profile_def reference_stripe_def Let_def
      split: sum.splits)

lemma detect_banding_error:
  "(\<exists>e. detect_banding img bw off win th = Inl e) \<longleftrightarrow> (img = [] \<and> 3 \<le> win)"
  using moving_average_1d_error [of "reference_profile img bw off" win]
  by (auto simp: detect_banding_unfold split: sum.splits)

lemma length_sub_arr [simp]: "length (sub_arr xs ys) = min (length xs) (length ys)"
  by (simp add: sub_arr_def)

lemma length_sub_rows [simp]: "length (sub_rows img band) = min (length img) (length band)"
  by (simp add: sub_rows_def)

lemma apply_correction_unfold:
  "apply_correction nan16 img bw off win =
     (case moving_average_1d (reference_profile img bw off) win of
        Inl e \<Rightarrow> Inl e
      | Inr ref_slow \<Rightarrow>
          if img = [] then Inl ValueError
          else Inr (map (map (\<lambda>v. astype_u16 nan16 (np_clip 0 65535 v)))
                      (sub_rows (map (map astype_f32) img)
                         (sub_arr (reference_profile img bw off) ref_slow)), True))"
proof (cases "moving_average_1d (reference_profile img bw off) win")
  case (Inl e)
  then show ?thesis
    by (simp add: apply_correction_def reference_profile_def reference_stripe_def Let_def)
next
  case (Inr ref_slow)
  then have len: "length ref_slow = length img"
    using moving_average_1d_Inr_length [of "reference_profile img bw off" win ref_slow] by simp
  have "length (map np_median (np_cols (sub_rows (map (map astype_f32) img)
          (sub_arr (reference_profile img bw off) ref_slow)) a b)) = length img" for a b
    by (simp add: np_cols_def len)
  then have "(map np_median (np_cols (sub_rows (map (map astype_f32) img)
          (sub_arr (reference_profile img bw off) ref_slow)) a b) = []) = (img = [])" for a b
    by (metis length_0_conv)
  with Inr show ?thesis
    by (simp add: apply_correction_def reference_profile_def reference_stripe_def Let_def)
qed

lemma apply_correction_error:
  "(\<exists>e. apply_correction nan16 img bw off win = Inl e) \<longleftrightarrow> img = []"
  using moving_average_1d_error [of "reference_profile img bw off" win]
  by (auto simp: apply_correction_unfold split: sum.splits)

lemma fsum_NaN: "NaN \<in> set xs \<Longrightarrow> fsum xs = NaN"
proof (induction xs)
  case Nil
  then show ?case by simp
next
  case (Cons x xs)
  show ?case
  proof (cases x)
    case (Fin a)
    with Cons have "foldr fadd xs (Fin 0) = NaN" by (simp add: fsum_def)
    with Fin show ?thesis by (simp add: fsum_def)
  next
    case NaN
    then show ?thesis by (simp add: fsum_def)
  qed
qed

lemma moving_average_1d_NaN:
  assumes "moving_average_1d x win = Inr y" "r < length x" "x ! r = NaN"
  shows "y ! r = NaN"
proof (cases "win < 3")
  case True
  with assms show ?thesis by (simp add: moving_average_1d_def)
next
  case False
  then have win: "3 \<le> win" by simp
  from assms(2) have ne: "x \<noteq> []" by auto
  let ?w = "nat win" and ?l = "nat (win div 2)" and ?r = "nat (win - 1 - win div 2)"
  let ?xp = "np_pad_edge x ?l ?r" and ?k = "replicate ?w (Fin (1 / real_of_int win))"
  have lr: "?l + ?r + 1 = ?w" using win by linarith
  have "length ?xp = ?l + length x + ?r" by (simp add: np_pad_edge_def)
  then have len: "length ?xp = length x + ?w - 1" using lr by linarith
  have k: "?k \<noteq> []" "length ?k \<le> length ?xp"
  proof -
    show "?k \<noteq> []" using win by auto
    have "?w \<le> length x + ?w - 1" using assms(2) by linarith
    then show "length ?k \<le> length ?xp" by (simp only: len length_replicate)
  qed
  have n: "length ?xp - ?w + 1 = length x" using len assms(2) win by simp
  have "moving_average_1d x win = np_convolve_valid ?xp ?k"
    using win ne by (simp add: moving_average_1d_def Let_def)
  with assms(1) have y: "y = map (\<lambda>i. fsum (map (\<lambda>j. fmul (?xp ! (i + ?w - 1 - j)) (?k ! j))
                              [0..<?w])) [0..<length x]"
    unfolding np_convolve_valid_long [OF k] by (simp only: length_replicate n sum.inject)
  have "?xp ! (r + ?w - 1 - ?r) = x ! r"
  proof -
    have "r + ?w - 1 - ?r = ?l + r" using lr by linarith
    then show ?thesis using assms(2) by (simp add: np_pad_edge_def nth_append)
  qed
  then have "fmul (?xp ! (r + ?w - 1 - ?r)) (?k ! ?r) = NaN" using assms(3) by simp
  moreover have "?r < ?w" using lr by linarith
  ultimately have "NaN \<in> set (map (\<lambda>j. fmul (?xp ! (r + ?w - 1 - j)) (?k ! j)) [0..<?w])"
    by (metis (no_types, lifting) atLeast0LessThan image_eqI lessThan_iff list.set_map set_upt)
  then have "fsum (map (\<lambda>j. fmul (?xp ! (r + ?w - 1 - j)) (?k ! j)) [0..<?w]) = NaN"
    by (rule fsum_NaN)
  with y assms(2) show ?thesis by simp
qed

lemma insort_shift:
  "insort (x - b) (map (\<lambda>y. y - b) ys) = map (\<lambda>y. y - b) (insort x (ys :: real list))"
  by (induction ys) simp_all

lemma sort_shift: "sort (map (\<lambda>x. x - b) (rs :: real list)) = map (\<lambda>x. x - b) (sort rs)"
  by (induction rs) (simp_all add: insort_shift)

lemma np_median_Fin:
  "rs \<noteq> [] \<Longrightarrow> np_median (map Fin rs) =
     Fin (let part = sort rs; n = length rs
          in if odd n then part ! (n div 2) else (part ! (n div 2 - 1) + part ! (n div 2)) / 2)"
  by (simp add: np_median_def list_all_iff Let_def comp_def)

lemma np_median_shift:
  assumes "rs \<noteq> []"
  shows "np_median (map (\<lambda>v. fsub v (Fin b)) (map Fin rs)) = fsub (np_median (map Fin rs)) (Fin b)"
proof -
  have "map (\<lambda>v. fsub v (Fin b)) (map Fin rs) = map Fin (map (\<lambda>x. x - b) rs)" by simp
  then have "np_median (map (\<lambda>v. fsub v (Fin b)) (map Fin rs))
             = np_median (map Fin (map (\<lambda>x. x - b) rs))" by (simp only:)
  also have "\<dots> = Fin (let part = sort (map (\<lambda>x. x - b) rs); n = length (map (\<lambda>x. x - b) rs)
          in if odd n then part ! (n div 2) else (part ! (n div 2 - 1) + part ! (n div 2)) / 2)"
    using assms by (intro np_median_Fin) simp
  also have "\<dots> = fsub (np_median (map Fin rs)) (Fin b)"
  proof -
    have n: "length rs div 2 < length rs" using assms by simp
    then have n1: "length rs div 2 - 1 < length rs" by (rule less_imp_diff_less)
    show ?thesis
      using assms n n1
      by (simp add: np_median_Fin [OF assms] sort_shift Let_def field_simps del: One_nat_def)
  qed
  finally show ?thesis .
qed

lemma np_median_NaN_row:
  "np_median (map (\<lambda>v. fsub v NaN) xs) = NaN"
  by (cases xs) (simp_all add: np_median_def)

lemma py_slice_map: "py_slice (map f xs) a b = map f (py_slice xs a b)"
  by (simp add: py_slice_def Let_def take_map drop_map)

lemma reference_stripe_rows:
  "reference_stripe img bw off =
     map (\<lambda>row. map Fin (map (\<lambda>s. real (unat s))
            (py_slice row (int (shape1 img) - off - bw) (int (shape1 img) - off)))) img"
proof -
  have "shape1 (map (map astype_f32) img) = shape1 img"
    by (cases img) (simp_all add: shape1_def)
  then show ?thesis
    by (simp add: reference_stripe_def np_cols_def Let_def py_slice_map comp_def astype_f32_def)
qed

lemma corrected_ref_row:
  assumes "rr = [] \<Longrightarrow> s = NaN"
  shows "np_median (map (\<lambda>v. fsub v (fsub (np_median (map Fin rr)) s)) (map Fin rr)) = s"
proof (cases "rr = []")
  case True
  with assms show ?thesis by (simp add: np_median_def)
next
  case False
  show ?thesis
  proof (cases s)
    case (Fin t)
    obtain m where m: "np_median (map Fin rr) = Fin m"
      using np_median_Fin [OF False] by blast
    have "np_median (map (\<lambda>v. fsub v (Fin (m - t))) (map Fin rr)) = fsub (Fin m) (Fin (m - t))"
      using np_median_shift [OF False, of "m - t"] m by (simp only:)
    with Fin m show ?thesis by simp
  next
    case NaN
    have "fsub (np_median (map Fin rr)) NaN = NaN" by (cases "np_median (map Fin rr)") simp_all
    with NaN show ?thesis by (simp only: np_median_NaN_row)
  qed
qed

lemma corrected_ref_is_slow_profile:
  assumes S: "S = map (\<lambda>row. map Fin (g row)) img"
    and rs: "moving_average_1d (map np_median S) w = Inr ref_slow"
  shows "map np_median (sub_rows S (sub_arr (map np_median S) ref_slow)) = ref_slow"
proof (rule nth_equalityI)
  have len: "length ref_slow = length S"
    using moving_average_1d_Inr_length [OF rs] by simp
  then show "length (map np_median (sub_rows S (sub_arr (map np_median S) ref_slow))) = length ref_slow"
    by simp
  fix r assume "r < length (map np_median (sub_rows S (sub_arr (map np_median S) ref_slow)))"
  then have r: "r < length S" by simp
  then have r': "r < length img" using S by simp
  have row: "S ! r = map Fin (g (img ! r))" using S r' by simp
  have nan: "ref_slow ! r = NaN" if "g (img ! r) = []"
  proof -
    have "map np_median S ! r = NaN" using r row that by (simp add: np_median_def)
    then show ?thesis using moving_average_1d_NaN [OF rs] r by simp
  qed
  have "map np_median (sub_rows S (sub_arr (map np_median S) ref_slow)) ! r
        = np_median (map (\<lambda>v. fsub v (fsub (np_median (S ! r)) (ref_slow ! r))) (S ! r))"
    using r len by (simp add: sub_rows_def sub_arr_def)
  also have "\<dots> = ref_slow ! r"
    unfolding row using nan by (rule corrected_ref_row)
  finally show "map np_median (sub_rows S (sub_arr (map np_median S) ref_slow)) ! r = ref_slow ! r" .
qed

lemma corrected_ref_of_reference:
  "corrected_ref_of (reference_stripe img bw off) (reference_profile img bw off) w =
     moving_average_1d (reference_profile img bw off) w"
proof (cases "moving_average_1d (reference_profile img bw off) w")
  case (Inl e)
  then show ?thesis by (simp add: corrected_ref_of_def)
next
  case (Inr ref_slow)
  then have "map np_median (sub_rows (reference_stripe img bw off)
               (sub_arr (map np_median (reference_stripe img bw off)) ref_slow)) = ref_slow"
    using corrected_ref_is_slow_profile [OF reference_stripe_rows, of img bw off w ref_slow]
    by (simp add: reference_profile_def)
  with Inr show ?thesis by (simp add: corrected_ref_of_def reference_profile_def Let_def)
qed

lemma window_score_reference:
  "window_score (reference_stripe img bw off) (reference_profile img bw off) w =
     (case moving_average_1d (reference_profile img bw off) w of
        Inl e \<Rightarrow> Inl e
      | Inr ref_slow \<Rightarrow> Inr (np_std ref_slow))"
  by (simp add: window_score_def corrected_ref_of_reference)

section \<open>The search over candidate windows: auxiliary facts\<close>

lemma candidates_loop_min:
  assumes "\<forall>c\<in>set cs. window_score S R c = Inr (Fin (sc c))"
  shows "(candidates_loop S R cs (bw, Score (Fin b)) = Inr (bw, Score (Fin b)) \<and>
            (\<forall>j<length cs. b \<le> sc (cs ! j))) \<or>
         (\<exists>i<length cs.
            candidates_loop S R cs (bw, Score (Fin b)) = Inr (cs ! i, Score (Fin (sc (cs ! i)))) \<and>
            sc (cs ! i) < b \<and>
            (\<forall>j<length cs. sc (cs ! i) \<le> sc (cs ! j)) \<and>
            (\<forall>j<i. sc (cs ! i) < sc (cs ! j)))"
  using assms
proof (induction cs arbitrary: bw b)
  case Nil
  then show ?case by simp
next
  case (Cons c rest)
  have c: "window_score S R c = Inr (Fin (sc c))" using Cons.prems by simp
  have rest: "\<forall>c\<in>set rest. window_score S R c = Inr (Fin (sc c))" using Cons.prems by simp
  show ?case
  proof (cases "sc c < b")
    case True
    then have step: "candidates_loop S R (c # rest) (bw, Score (Fin b))
                     = candidates_loop S R rest (c, Score (Fin (sc c)))"
      using c by simp
    from Cons.IH [OF rest, of c "sc c"] show ?thesis
    proof (elim disjE exE conjE)
      assume a: "candidates_loop S R rest (c, Score (Fin (sc c))) = Inr (c, Score (Fin (sc c)))"
        "\<forall>j<length rest. sc c \<le> sc (rest ! j)"
      show ?thesis unfolding step
        by (intro disjI2 exI [of _ 0]) (use a True in \<open>auto simp: nth_Cons'\<close>)
    next
      fix i
      assume i: "i < length rest"
        "candidates_loop S R rest (c, Score (Fin (sc c))) = Inr (rest ! i, Score (Fin (sc (rest ! i))))"
        "sc (rest ! i) < sc c" "\<forall>j<length rest. sc (rest ! i) \<le> sc (rest ! j)"
        "\<forall>j<i. sc (rest ! i) < sc (rest ! j)"
      show ?thesis unfolding step
        by (intro disjI2 exI [of _ "Suc i"])
           (use i True in \<open>auto simp: nth_Cons' less_Suc_eq_0_disj\<close>)
    qed
  next
    case False
    then have step: "candidates_loop S R (c # rest) (bw, Score (Fin b))
                     = candidates_loop S R rest (bw, Score (Fin b))"
      using c by simp
    from Cons.IH [OF rest, of bw b] show ?thesis
    proof (elim disjE exE conjE)
      assume a: "candidates_loop S R rest (bw, Score (Fin b)) = Inr (bw, Score (Fin b))"
        "\<forall>j<length rest. b \<le> sc (rest ! j)"
      show ?thesis unfolding step
        by (intro disjI1) (use a False in \<open>auto simp: nth_Cons' less_Suc_eq_0_disj\<close>)
    next
      fix i
      assume i: "i < length rest"
        "candidates_loop S R rest (bw, Score (Fin b)) = Inr (rest ! i, Score (Fin (sc (rest ! i))))"
        "sc (rest ! i) < b" "\<forall>j<length rest. sc (rest ! i) \<le> sc (rest ! j)"
        "\<forall>j<i. sc (rest ! i) < sc (rest ! j)"
      show ?thesis unfolding step
        by (intro disjI2 exI [of _ "Suc i"])
           (use i False in \<open>auto simp: nth_Cons' less_Suc_eq_0_disj\<close>)
    qed
  qed
qed

lemma candidates_loop_first_min:
  assumes "\<forall>c\<in>set (c0 # rest). window_score S R c = Inr (Fin (sc c))"
  shows "\<exists>i<length (c0 # rest).
           candidates_loop S R (c0 # rest) (c0, PosInf)
             = Inr ((c0 # rest) ! i, Score (Fin (sc ((c0 # rest) ! i)))) \<and>
           (\<forall>j<length (c0 # rest). sc ((c0 # rest) ! i) \<le> sc ((c0 # rest) ! j)) \<and>
           (\<forall>j<i. sc ((c0 # rest) ! i) < sc ((c0 # rest) ! j))"
proof -
  have c: "window_score S R c0 = Inr (Fin (sc c0))" using assms by simp
  have rest: "\<forall>c\<in>set rest. window_score S R c = Inr (Fin (sc c))" using assms by simp
  have step: "candidates_loop S R (c0 # rest) (c0, PosInf)
              = candidates_loop S R rest (c0, Score (Fin (sc c0)))"
    using c by simp
  from candidates_loop_min [OF rest, of c0 "sc c0"] show ?thesis
  proof (elim disjE exE conjE)
    assume a: "candidates_loop S R rest (c0, Score (Fin (sc c0))) = Inr (c0, Score (Fin (sc c0)))"
      "\<forall>j<length rest. sc c0 \<le> sc (rest ! j)"
    show ?thesis unfolding step
      by (intro exI [of _ 0]) (use a in \<open>auto simp: nth_Cons'\<close>)
  next
    fix i
    assume i: "i < length rest"
      "candidates_loop S R rest (c0, Score (Fin (sc c0))) = Inr (rest ! i, Score (Fin (sc (rest ! i))))"
      "sc (rest ! i) < sc c0" "\<forall>j<length rest. sc (rest ! i) \<le> sc (rest ! j)"
      "\<forall>j<i. sc (rest ! i) < sc (rest ! j)"
    show ?thesis unfolding step
      by (intro exI [of _ "Suc i"]) (use i in \<open>auto simp: nth_Cons' less_Suc_eq_0_disj\<close>)
  qed
qed

lemma reference_profile_Fin:
  assumes "list_all (\<lambda>row. row \<noteq> []) (reference_stripe img bw off)"
  shows "\<exists>rr. reference_profile img bw off = map Fin rr \<and> length rr = length img"
proof -
  let ?g = "\<lambda>row. map (\<lambda>s. real (unat s))
              (py_slice row (int (shape1 img) - off - bw) (int (shape1 img) - off))"
  have S: "reference_stripe img bw off = map (\<lambda>row. map Fin (?g row)) img"
    by (rule reference_stripe_rows)
  have ne: "?g row \<noteq> []" if "row \<in> set img" for row
    using assms that unfolding S by (auto simp: list_all_iff)
  have "np_median (map Fin (?g row)) = Fin (the_Fin (np_median (map Fin (?g row))))"
    if "row \<in> set img" for row
    using np_median_Fin [OF ne [OF that]] by simp
  then have "reference_profile img bw off
             = map Fin (map (\<lambda>row. the_Fin (np_median (map Fin (?g row)))) img)"
    unfolding reference_profile_def S by simp
  then show ?thesis by (metis length_map)
qed

lemma moving_average_1d_keeps_Fin:
  assumes "rr \<noteq> []"
  shows "\<exists>ss. moving_average_1d (map Fin rr) w = Inr (map Fin ss) \<and> ss \<noteq> []"
proof (cases "w < 3")
  case True
  with assms show ?thesis by (auto simp: moving_average_1d_def)
next
  case False
  then have "3 \<le> w" by simp
  from moving_average_1d_Fin [OF assms this]
  have "moving_average_1d (map Fin rr) w
        = Inr (map Fin (map (\<lambda>i. rolling_mean_edge rr w i) [0..<length rr]))"
    by simp
  moreover have "map (\<lambda>i. rolling_mean_edge rr w i) [0..<length rr] \<noteq> []" using assms by simp
  ultimately show ?thesis by blast
qed

lemma np_std_Fin: "ss \<noteq> [] \<Longrightarrow> \<exists>t. np_std (map Fin ss) = Fin t"
  by (simp add: np_std_def list_all_iff Let_def)

lemma window_score_finite:
  assumes "img \<noteq> []" "list_all (\<lambda>row. row \<noteq> []) (reference_stripe img bw off)"
  shows "\<exists>t. window_score (reference_stripe img bw off) (reference_profile img bw off) w = Inr (Fin t)"
proof -
  from reference_profile_Fin [OF assms(2)] obtain rr where
    rr: "reference_profile img bw off = map Fin rr" "length rr = length img" by blast
  with assms(1) have "rr \<noteq> []" by auto
  from moving_average_1d_keeps_Fin [OF this, of w] obtain ss where
    ss: "moving_average_1d (map Fin rr) w = Inr (map Fin ss)" "ss \<noteq> []" by blast
  from np_std_Fin [OF ss(2)] obtain t where "np_std (map Fin ss) = Fin t" by blast
  with ss rr(1) show ?thesis unfolding window_score_reference by simp
qed

lemma optimize_smooth_window_unfold:
  "optimize_smooth_window img bw off cands =
     (case (case cands of None \<Rightarrow> default_candidates (length img) | Some cs \<Rightarrow> cs) of
        [] \<Rightarrow> Inl IndexError
      | c0 # rest \<Rightarrow>
          candidates_loop (reference_stripe img bw off) (reference_profile img bw off)
            (c0 # rest) (c0, PosInf))"
  by (simp add: optimize_smooth_window_def reference_profile_def reference_stripe_def Let_def
      split: list.splits option.splits)

lemma py_range_10_5:
  "py_range 10 (m + 1) 5 = filter (\<lambda>c. (c - 10) mod 5 = 0) [10..m]"
proof (rule sorted_distinct_set_unique)
  let ?n = "nat ((m + 1 - 10 + 5 - 1) div 5)"
  have mono: "strict_mono (\<lambda>k. 10 + 5 * int k)" by (simp add: strict_mono_def)
  show "sorted (py_range 10 (m + 1) 5)"
    unfolding py_range_def by (simp add: sorted_map sorted_wrt_iff_nth_less)
  show "distinct (py_range 10 (m + 1) 5)"
    unfolding py_range_def by (simp add: distinct_map inj_on_def)
  show "sorted (filter (\<lambda>c. (c - 10) mod 5 = 0) [10..m])"
    using sorted_filter [of "\<lambda>x. x" "[10..m]"] by simp
  show "distinct (filter (\<lambda>c. (c - 10) mod 5 = 0) [10..m])" by simp
  show "set (py_range 10 (m + 1) 5) = set (filter (\<lambda>c. (c - 10) mod 5 = 0) [10..m])"
  proof (rule set_eqI)
    fix c :: int
    have "c \<in> set (py_range 10 (m + 1) 5) \<longleftrightarrow> (\<exists>k. k < ?n \<and> c = 10 + 5 * int k)"
      unfolding py_range_def by auto
    also have "\<dots> \<longleftrightarrow> 10 \<le> c \<and> c \<le> m \<and> (c - 10) mod 5 = 0"
    proof
      assume "\<exists>k. k < ?n \<and> c = 10 + 5 * int k"
      then obtain k where k: "k < ?n" "c = 10 + 5 * int k" by blast
      then have "int k < (m - 5) div 5" by simp
      then have "5 * int k + 5 \<le> m - 5" by linarith
      with k show "10 \<le> c \<and> c \<le> m \<and> (c - 10) mod 5 = 0" by simp
    next
      assume a: "10 \<le> c \<and> c \<le> m \<and> (c - 10) mod 5 = 0"
      then have c: "c = 10 + 5 * ((c - 10) div 5)" by presburger
      have "0 \<le> (c - 10) div 5" using a by presburger
      moreover have "(c - 10) div 5 < (m - 5) div 5" using a by presburger
      ultimately have "nat ((c - 10) div 5) < ?n \<and> c = 10 + 5 * int (nat ((c - 10) div 5))"
        using c by simp
      then show "\<exists>k. k < ?n \<and> c = 10 + 5 * int k" by blast
    qed
    finally show "c \<in> set (py_range 10 (m + 1) 5) \<longleftrightarrow> c \<in> set (filter (\<lambda>c. (c - 10) mod 5 = 0) [10..m])"
      by auto
  qed
qed

lemma default_candidates_spec:
  "default_candidates h =
     (let r = filter (\<lambda>c. (c - 10) mod 5 = 0) [10..min 512 (int h div 4)]
      in if r = [] then [10, 32, 64, 128, 256] else r)"
  by (simp add: default_candidates_def py_range_10_5 Let_def)

lemma default_candidates_ge:
  "default_candidates h \<noteq> [] \<and> (\<forall>c\<in>set (default_candidates h). 10 \<le> c)"
  by (auto simp: default_candidates_spec Let_def)

lemma candidates_loop_Inr:
  assumes "\<forall>c\<in>set cs. \<exists>s. window_score S R c = Inr s"
  shows "\<exists>res. candidates_loop S R cs st = Inr res"
  using assms
proof (induction cs arbitrary: st)
  case Nil
  then show ?case by (cases st) simp
next
  case (Cons c cs)
  then obtain s where "window_score S R c = Inr s" by auto
  with Cons show ?case by (cases st) simp
qed

lemma window_score_error:
  "(\<exists>e. window_score (reference_stripe img bw off) (reference_profile img bw off) w = Inl e)
     \<longleftrightarrow> (img = [] \<and> 3 \<le> w)"
  using moving_average_1d_error [of "reference_profile img bw off" w]
  by (auto simp: window_score_reference split: sum.splits)

lemma optimize_default_error:
  "(\<exists>e. optimize_smooth_window img bw off None = Inl e) \<longleftrightarrow> img = []"
proof -
  let ?S = "reference_stripe img bw off" and ?R = "reference_profile img bw off"
  from default_candidates_ge [of "length img"] obtain c0 rest where
    cs: "default_candidates (length img) = c0 # rest" and ge: "\<forall>c\<in>set (c0 # rest). 10 \<le> c"
    by (cases "default_candidates (length img)") auto
  have unfold: "optimize_smooth_window img bw off None = candidates_loop ?S ?R (c0 # rest) (c0, PosInf)"
    by (simp add: optimize_smooth_window_unfold cs)
  show ?thesis
  proof (cases "img = []")
    case True
    have "3 \<le> c0" using ge by auto
    with True window_score_error [of img bw off c0] obtain e where
      "window_score ?S ?R c0 = Inl e" by blast
    then have "candidates_loop ?S ?R (c0 # rest) (c0, PosInf) = Inl e" by simp
    with True unfold show ?thesis by simp
  next
    case False
    then have "\<forall>c\<in>set (c0 # rest). \<exists>s. window_score ?S ?R c = Inr s"
      using window_score_error [of img bw off] by (metis sum.exhaust_sel sum.collapse(1))
    from candidates_loop_Inr [OF this] obtain res where
      "candidates_loop ?S ?R (c0 # rest) (c0, PosInf) = Inr res" by blast
    with False unfold show ?thesis by simp
  qed
qed

lemma correct_banding_error:
  "(\<exists>e. correct_banding nan16 img bw off win ad th ao = Inl e)
     \<longleftrightarrow> (img = [] \<and> (ao \<or> 3 \<le> win \<or> \<not> ad))"
proof (cases "img = []")
  case True
  show ?thesis
  proof (cases ao)
    case ao: True
    from optimize_default_error [of img bw off] True obtain e where
      "optimize_smooth_window img bw off None = Inl e" by blast
    with True ao show ?thesis by (simp add: correct_banding_def)
  next
    case ao: False
    show ?thesis
    proof (cases ad)
      case ad: True
      show ?thesis
      proof (cases "3 \<le> win")
        case w: True
        from detect_banding_error [of img bw off win th] True w obtain e where
          "detect_banding img bw off win th = Inl e" by blast
        with True ao ad w show ?thesis by (simp add: correct_banding_def)
      next
        case w: False
        with detect_banding_error [of img bw off win th] obtain hb bs where
          d: "detect_banding img bw off win th = Inr (hb, bs)"
          by (metis old.prod.exhaust sum.exhaust_sel sum.collapse(1))
        have "moving_average_1d (reference_profile img bw off) win = Inr []"
          using w True by (simp add: moving_average_1d_def)
        with d have "\<not> hb" by (simp add: detect_banding_unfold np_std_def sub_arr_def)
        with d True ao ad w show ?thesis by (simp add: correct_banding_def)
      qed
    next
      case ad: False
      from apply_correction_error [of nan16 img bw off win] True obtain e where
        "apply_correction nan16 img bw off win = Inl e" by blast
      with True ao ad show ?thesis by (simp add: correct_banding_def)
    qed
  qed
next
  case False
  have a: "\<exists>r. apply_correction nan16 img bw off w = Inr r" for w
    using apply_correction_error [of nan16 img bw off w] False
    by (metis sum.exhaust_sel sum.collapse(1))
  have d: "\<exists>hb bs. detect_banding img bw off w th = Inr (hb, bs)" for w
    using detect_banding_error [of img bw off w th] False
    by (metis old.prod.exhaust sum.exhaust_sel sum.collapse(1))
  have tail: "\<exists>r. (case (if ad
                 then (case detect_banding img bw off w th of
                         Inl e \<Rightarrow> Inl e
                       | Inr (has_banding, band_std) \<Rightarrow> Inr (\<not> has_banding))
                 else Inr False) of
             Inl e \<Rightarrow> Inl e
           | Inr skip \<Rightarrow>
               if skip then Inr (img, False)
               else apply_correction nan16 img bw off w) = Inr r" for w
    using a [of w] d [of w] by auto
  have "\<exists>r. correct_banding nan16 img bw off win ad th ao = Inr r"
  proof (cases ao)
    case True
    from optimize_default_error [of img bw off] False obtain w sc where
      "optimize_smooth_window img bw off None = Inr (w, sc)"
      by (metis old.prod.exhaust sum.exhaust_sel sum.collapse(1))
    with True tail [of w] show ?thesis by (simp add: correct_banding_def)
  next
    case ao: False
    with tail [of win] show ?thesis by (simp add: correct_banding_def)
  qed
  with False show ?thesis by auto
qed

lemma saturate_u16_range: "0 \<le> saturate_u16 v \<and> saturate_u16 v \<le> 65535"
  unfolding saturate_u16_def by (auto simp: le_floor_iff floor_le_iff)

lemma clip_cast_saturates:
  "astype_u16 nan16 (np_clip 0 65535 (Fin v)) = word_of_int (saturate_u16 v)"
  by (auto simp: saturate_u16_def min_def max_def)

lemma uint_saturate: "uint (word_of_int (saturate_u16 v) :: u16) = saturate_u16 v"
proof -
  have "saturate_u16 v < 2 ^ 16" using saturate_u16_range [of v] by simp
  with saturate_u16_range [of v] show ?thesis
    by (simp add: uint_word_of_int take_bit_int_eq_self)
qed

section \<open>Evaluation on concrete images\<close>

lemma upt_0_numeral: "[0..<numeral n] = 0 # [Suc 0..<numeral n]"
  by (simp add: upt_rec)

lemma upt_Suc0_numeral:
  "[Suc 0..<numeral n] = (if Suc 0 < numeral n then Suc 0 # [2..<numeral n] else [])"
  by (simp add: upt_rec [of "Suc 0"] numeral_2_eq_2)

lemma replicate_numeral: "replicate (numeral n) x = x # replicate (pred_numeral n) x"
  by (simp add: numeral_eq_Suc)

lemmas eval_defs =
  detect_banding_def apply_correction_def correct_banding_def optimize_smooth_window_def
  reference_stripe_def reference_profile_def window_score_def corrected_ref_of_def
  moving_average_1d_def np_convolve_valid_def np_pad_edge_def np_median_def np_std_def
  np_cols_def py_slice_def slice_index_def shape1_def sub_rows_def sub_arr_def fsum_def
  astype_f32_def Let_def upt_0_numeral upt_Suc0_numeral replicate_numeral

lemma clip_cast_cases:
  "astype_u16 nan16 (np_clip 0 65535 x) =
     (case x of Fin v \<Rightarrow> word_of_int (saturate_u16 v) | NaN \<Rightarrow> nan16)"
proof (cases x)
  case (Fin v)
  then show ?thesis by (simp only: clip_cast_saturates f32.case)
next
  case NaN
  then show ?thesis by simp
qed

lemma clip_cast_rows:
  "map (map (\<lambda>v. astype_u16 nan16 (np_clip 0 65535 v))) (sub_rows (map (map astype_f32) img) band) =
     map (\<lambda>(row, b). map (\<lambda>s. case fsub (astype_f32 s) b of
                                   Fin v \<Rightarrow> word_of_int (saturate_u16 v) | NaN \<Rightarrow> nan16) row)
       (zip img band)"
  by (simp add: sub_rows_def zip_map1 clip_cast_cases split_def comp_def
      del: np_clip.simps astype_u16.simps)

lemma u16_range: "0 \<le> uint (s :: u16) \<and> uint s \<le> 65535"
  using uint_bounded [of s] by simp

lemma all_u16_range: "list_all (list_all (\<lambda>s :: u16. 0 \<le> uint s \<and> uint s \<le> 65535)) out"
  by (simp add: list_all_iff u16_range)

lemma correct_banding_Inr_cases:
  assumes "correct_banding nan16 img bw off win ad th ao = Inr (out, applied)"
  shows "if applied
         then \<exists>w ref_slow. moving_average_1d (reference_profile img bw off) w = Inr ref_slow \<and>
                out = map (map (\<lambda>v. astype_u16 nan16 (np_clip 0 65535 v)))
                        (sub_rows (map (map astype_f32) img)
                           (sub_arr (reference_profile img bw off) ref_slow))
         else out = img"
proof -
  have a: "?thesis" if "apply_correction nan16 img bw off w = Inr (out, applied)" for w
    using that by (auto simp: apply_correction_unfold split: sum.splits if_splits)
  from assms show ?thesis
    by (auto simp: correct_banding_def split: sum.splits if_splits prod.splits dest: a)
qed

lemma fixer_unfold:
  "fixer_correct_banding nan16 img =
     (let ref = map np_median (map (\<lambda>row. py_slice row (- BLACK_W) (int (length row)))
                                  (map (map astype_f32) img))
      in case moving_average_1d ref SMOOTH_WIN of
           Inl e \<Rightarrow> Inl e
         | Inr ref_slow \<Rightarrow>
             Inr (map (map (\<lambda>v. astype_u16 nan16 (np_clip 0 65535 v)))
                    (sub_rows (map (map astype_f32) img) (sub_arr ref ref_slow))))"
  unfolding fixer_correct_banding_def Let_def ..

section \<open>The store: auxiliary facts\<close>

lemma next_free_put [simp]: "next_free (put v s) = Suc (next_free s)"
  by (simp add: put_def)

lemma cells_put [simp]: "cells (put v s) a = (if a = next_free s then Some v else cells s a)"
  by (simp add: put_def)

lemma get_put_new [simp]:
  "a = next_free s \<Longrightarrow> get_f32_1 (put (F32_1 v) s) a = v"
  "a = next_free s \<Longrightarrow> get_f32 (put (F32 m) s) a = m"
  "a = next_free s \<Longrightarrow> get_u16 (put (U16 u) s) a = u"
  by (simp_all add: get_f32_1_def get_f32_def get_u16_def)

lemma extends_refl [simp]: "extends s s"
  by (simp add: extends_def)

lemma extends_trans: "extends s t \<Longrightarrow> extends t u \<Longrightarrow> extends s u"
  by (auto simp: extends_def)

lemma extends_put [simp]: "extends s (put v s)"
  by (simp add: extends_def)

lemma extends_put_trans [simp]: "extends s t \<Longrightarrow> extends s (put v t)"
  by (rule extends_trans [OF _ extends_put])

lemma extends_next: "extends s t \<Longrightarrow> next_free s \<le> next_free t"
  by (simp add: extends_def)

lemma extends_get:
  assumes "extends s t" "a < next_free s"
  shows "get_f32_1 t a = get_f32_1 s a" "get_f32 t a = get_f32 s a" "get_u16 t a = get_u16 s a"
    "cells t a = cells s a"
  using assms by (simp_all add: extends_def get_f32_1_def get_f32_def get_u16_def)

lemma get_put_old [simp]:
  assumes "a < next_free s"
  shows "get_f32_1 (put v s) a = get_f32_1 s a" "get_f32 (put v s) a = get_f32 s a"
    "get_u16 (put v s) a = get_u16 s a"
  using assms by (simp_all add: get_f32_1_def get_f32_def get_u16_def)

lemma kernel_cells:
  "map (\<lambda>c. fmul c (Fin (1 / real_of_int win))) (replicate n (Fin 1))
     = replicate n (Fin (1 / real_of_int win))"
  by simp

lemma moving_average_1d_st_refines:
  assumes "x < next_free s"
  shows "case moving_average_1d_st x win s of
           (r, s') \<Rightarrow> extends s s' \<and>
             (case r of
                Inl e \<Rightarrow> moving_average_1d (get_f32_1 s x) win = Inl e
              | Inr y \<Rightarrow> next_free s \<le> y \<and> y < next_free s' \<and>
                  moving_average_1d (get_f32_1 s x) win = Inr (get_f32_1 s' y))"
proof (cases "win < 3")
  case True
  then show ?thesis
    by (simp add: moving_average_1d_st_def moving_average_1d_def Let_def)
next
  case False
  let ?x = "get_f32_1 s x"
  let ?s1 = "put (F32_1 ?x) s"
  let ?s2 = "put (F32_1 (replicate (nat win) (Fin 1))) ?s1"
  let ?k = "replicate (nat win) (Fin (1 / real_of_int win))"
  let ?s3 = "put (F32_1 ?k) ?s2"
  let ?xp = "np_pad_edge ?x (nat (win div 2)) (nat (win - 1 - win div 2))"
  let ?s4 = "put (F32_1 ?xp) ?s3"
  have e3: "extends s ?s3" by (intro extends_put_trans extends_refl)
  have e4: "extends s ?s4" by (intro extends_put_trans extends_refl)
  show ?thesis
  proof (cases "?x = []")
    case True
    with False e3 show ?thesis
      by (simp add: moving_average_1d_st_def moving_average_1d_def Let_def get_put_old)
  next
    case ne: False
    show ?thesis
    proof (cases "np_convolve_valid ?xp ?k")
      case (Inl e)
      with False ne e4 show ?thesis
        by (simp add: moving_average_1d_st_def moving_average_1d_def Let_def get_put_old)
    next
      case (Inr v)
      have "extends s (put (F32_1 v) ?s4)" by (intro extends_put_trans extends_refl)
      with Inr False ne show ?thesis
        by (simp add: moving_average_1d_st_def moving_average_1d_def Let_def get_put_old)
    qed
  qed
qed

lemma moving_average_1d_st_cases:
  assumes "x < next_free s"
  obtains (err) e s' where "moving_average_1d_st x win s = (Inl e, s')" "extends s s'"
      "moving_average_1d (get_f32_1 s x) win = Inl e"
  | (ok) y s' where "moving_average_1d_st x win s = (Inr y, s')" "extends s s'"
      "next_free s \<le> y" "y < next_free s'"
      "moving_average_1d (get_f32_1 s x) win = Inr (get_f32_1 s' y)"
proof -
  obtain r s' where m: "moving_average_1d_st x win s = (r, s')"
    by (cases "moving_average_1d_st x win s")
  with moving_average_1d_st_refines [OF assms, of win] show ?thesis
    by (cases r) (auto intro: err ok)
qed

lemma detect_banding_st_refines:
  assumes "p < next_free s"
  shows "case detect_banding_st p bw off win th s of
           (r, s') \<Rightarrow> extends s s' \<and> r = detect_banding (get_u16 s p) bw off win th"
proof -
  define img where "img = map (map astype_f32) (get_u16 s p)"
  define ref where "ref = map np_median
     (np_cols img (int (shape1 img) - off - bw) (int (shape1 img) - off))"
  define s2 where "s2 = put (F32_1 ref) (put (F32 img) s)"
  have s2: "next_free s2 = Suc (Suc (next_free s))" "extends s s2"
    "get_f32_1 s2 (Suc (next_free s)) = ref"
    by (simp_all add: s2_def)
  have ra: "Suc (next_free s) < next_free s2" by (simp add: s2)
  have unfold: "detect_banding_st p bw off win th s =
     (case moving_average_1d_st (Suc (next_free s)) win s2 of
           (Inl e, s') \<Rightarrow> (Inl e, s')
         | (Inr ref_slow, s') \<Rightarrow>
             (Inr (fgt (np_std (sub_arr (get_f32_1 s' (Suc (next_free s))) (get_f32_1 s' ref_slow))) th,
                   np_std (sub_arr (get_f32_1 s' (Suc (next_free s))) (get_f32_1 s' ref_slow))),
              put (F32_1 (sub_arr (get_f32_1 s' (Suc (next_free s))) (get_f32_1 s' ref_slow))) s'))"
    by (simp add: detect_banding_st_def Let_def s2_def ref_def img_def
        split: prod.splits sum.splits)
  have pure: "detect_banding (get_u16 s p) bw off win th =
     (case moving_average_1d ref win of
        Inl e \<Rightarrow> Inl e
      | Inr ref_slow \<Rightarrow> Inr (fgt (np_std (sub_arr ref ref_slow)) th, np_std (sub_arr ref ref_slow)))"
    by (simp add: detect_banding_def Let_def ref_def img_def split: sum.splits)
  from ra show ?thesis
  proof (cases rule: moving_average_1d_st_cases [where win = win])
    case (err e s')
    with s2 show ?thesis
      by (simp add: unfold pure extends_trans [OF s2(2)])
  next
    case (ok y s')
    have "get_f32_1 s' (Suc (next_free s)) = ref"
      using extends_get(1) [OF ok(2) ra] s2(3) by simp
    with ok s2 show ?thesis
      by (simp add: unfold pure extends_trans [OF s2(2)])
  qed
qed

lemma candidates_loop_st_refines:
  assumes "ia < next_free s" "ra < next_free s"
  shows "case candidates_loop_st ia a b ra cs st s of
           (r, s') \<Rightarrow> extends s s' \<and>
             r = candidates_loop (np_cols (get_f32 s ia) a b) (get_f32_1 s ra) cs st"
  using assms
proof (induction cs arbitrary: s st)
  case Nil
  then show ?case by (cases st) simp
next
  case (Cons c cs)
  obtain bw best where st: "st = (bw, best)" by (cases st)
  let ?S = "np_cols (get_f32 s ia) a b" and ?R = "get_f32_1 s ra"
  from Cons.prems(2) show ?case
  proof (cases rule: moving_average_1d_st_cases [where win = c])
    case (err e s')
    then show ?thesis
      by (simp add: st window_score_def corrected_ref_of_def)
  next
    case (ok y s')
    define band where "band = sub_arr ?R (get_f32_1 s' y)"
    define cstripe where "cstripe = sub_rows ?S band"
    define cref where "cref = map np_median cstripe"
    define s3 where "s3 = put (F32_1 cref) (put (F32 cstripe) (put (F32_1 band) s'))"
    have ia': "ia < next_free s'" and ra': "ra < next_free s'"
      using Cons.prems extends_next [OF ok(2)] by simp_all
    have old: "get_f32 s' ia = get_f32 s ia" "get_f32_1 s' ra = ?R"
      using extends_get [OF ok(2)] Cons.prems by simp_all
    have e3: "extends s s3"
      unfolding s3_def by (intro extends_put_trans ok(2))
    have n3: "ia < next_free s3" "ra < next_free s3"
      using ia' ra' by (simp_all add: s3_def)
    have old3: "get_f32 s3 ia = get_f32 s ia" "get_f32_1 s3 ra = ?R"
      using extends_get [OF e3] Cons.prems by simp_all
    have step: "candidates_loop_st ia a b ra (c # cs) st s =
                candidates_loop_st ia a b ra cs
                  (if score_less (np_std cref) best then (c, Score (np_std cref)) else (bw, best)) s3"
      using ia' ra' by (simp add: st ok(1) Let_def old s3_def cref_def cstripe_def band_def)
    have pure: "candidates_loop ?S ?R (c # cs) st =
                candidates_loop ?S ?R cs
                  (if score_less (np_std cref) best then (c, Score (np_std cref)) else (bw, best))"
      by (simp add: st window_score_def corrected_ref_of_def ok(5) Let_def
          cref_def cstripe_def band_def)
    from Cons.IH [OF n3, of "if score_less (np_std cref) best then (c, Score (np_std cref)) else (bw, best)"]
    show ?thesis
      unfolding step pure old3
      by (auto split: prod.splits intro: extends_trans [OF e3])
  qed
qed

lemma optimize_smooth_window_st_refines:
  assumes "p < next_free s"
  shows "case optimize_smooth_window_st p bw off cands s of
           (r, s') \<Rightarrow> extends s s' \<and> r = optimize_smooth_window (get_u16 s p) bw off cands"
proof -
  define img where "img = map (map astype_f32) (get_u16 s p)"
  define ref where "ref = map np_median
     (np_cols img (int (shape1 img) - off - bw) (int (shape1 img) - off))"
  define s2 where "s2 = put (F32_1 ref) (put (F32 img) s)"
  define cs where "cs = (case cands of None \<Rightarrow> default_candidates (length (get_u16 s p))
                         | Some cs \<Rightarrow> cs)"
  have s2: "next_free s2 = Suc (Suc (next_free s))" "extends s s2"
    "get_f32_1 s2 (Suc (next_free s)) = ref" "get_f32 s2 (next_free s) = img"
    by (simp_all add: s2_def)
  have unfold: "optimize_smooth_window_st p bw off cands s =
     (case cs of
        [] \<Rightarrow> (Inl IndexError, s2)
      | c0 # _ \<Rightarrow>
          candidates_loop_st (next_free s) (int (shape1 img) - off - bw) (int (shape1 img) - off)
            (Suc (next_free s)) cs (c0, PosInf) s2)"
    by (simp add: optimize_smooth_window_st_def Let_def s2_def ref_def img_def cs_def
        split: list.splits)
  have pure: "optimize_smooth_window (get_u16 s p) bw off cands =
     (case cs of
        [] \<Rightarrow> Inl IndexError
      | c0 # _ \<Rightarrow>
          candidates_loop (np_cols img (int (shape1 img) - off - bw) (int (shape1 img) - off))
            ref cs (c0, PosInf))"
    by (simp add: optimize_smooth_window_def Let_def ref_def img_def cs_def split: list.splits)
  show ?thesis
  proof (cases cs)
    case Nil
    with s2 show ?thesis by (simp add: unfold pure)
  next
    case (Cons c0 rest)
    have a: "next_free s < next_free s2" "Suc (next_free s) < next_free s2" by (simp_all add: s2)
    from candidates_loop_st_refines [OF a, of "int (shape1 img) - off - bw"
        "int (shape1 img) - off" cs "(c0, PosInf)"]
    show ?thesis
      unfolding unfold pure Cons list.case s2(3,4)
      by (auto split: prod.splits intro: extends_trans [OF s2(2)])
  qed
qed

lemma clip_then_cast:
  "map (map (astype_u16 nan16)) (map (map (np_clip 0 65535)) m)
     = map (map (\<lambda>v. astype_u16 nan16 (np_clip 0 65535 v))) m"
  by (simp add: comp_def)

lemma apply_correction_st_refines:
  assumes "p < next_free s"
  shows "case apply_correction_st nan16 p bw off win s of
           (r, s') \<Rightarrow> extends s s' \<and>
             (case r of
                Inl e \<Rightarrow> apply_correction nan16 (get_u16 s p) bw off win = Inl e
              | Inr (q, applied) \<Rightarrow> next_free s \<le> q \<and> q < next_free s' \<and>
                  (\<exists>out. cells s' q = Some (U16 out) \<and>
                     apply_correction nan16 (get_u16 s p) bw off win = Inr (out, applied)))"
proof -
  define img where "img = map (map astype_f32) (get_u16 s p)"
  define w where "w = int (shape1 img)"
  define ref where "ref = map np_median (np_cols img (w - off - bw) (w - off))"
  define s2 where "s2 = put (F32_1 ref) (put (F32 img) s)"
  have s2: "next_free s2 = Suc (Suc (next_free s))" "extends s s2"
    "get_f32_1 s2 (Suc (next_free s)) = ref" "get_f32 s2 (next_free s) = img"
    by (simp_all add: s2_def)
  have ra: "Suc (next_free s) < next_free s2" and ia: "next_free s < next_free s2"
    by (simp_all add: s2)
  have pure: "apply_correction nan16 (get_u16 s p) bw off win =
     (case moving_average_1d ref win of
           Inl e \<Rightarrow> Inl e
         | Inr ref_slow \<Rightarrow>
             if map np_median (np_cols (sub_rows img (sub_arr ref ref_slow)) (w - off - bw) (w - off)) = []
             then Inl ValueError
             else Inr (map (map (\<lambda>v. astype_u16 nan16 (np_clip 0 65535 v)))
                         (sub_rows img (sub_arr ref ref_slow)), True))"
    by (simp add: apply_correction_def Let_def ref_def w_def img_def split: sum.splits)
  from ra show ?thesis
  proof (cases rule: moving_average_1d_st_cases [where win = win])
    case (err e s')
    then have "apply_correction_st nan16 p bw off win s = (Inl e, s')"
      by (simp add: apply_correction_st_def Let_def s2_def ref_def w_def img_def)
    with err s2 show ?thesis
      by (simp add: pure extends_trans [OF s2(2)])
  next
    case (ok y s')
    define band where "band = sub_arr ref (get_f32_1 s' y)"
    define corrected where "corrected = sub_rows img band"
    define cref where "cref = map np_median (np_cols corrected (w - off - bw) (w - off))"
    define s5 where "s5 = put (F32_1 cref) (put (F32 corrected) (put (F32_1 band) s'))"
    define s7 where "s7 = put (U16 (map (map (astype_u16 nan16)) (map (map (np_clip 0 65535)) corrected)))
                            (put (F32 (map (map (np_clip 0 65535)) corrected)) s5)"
    have old: "get_f32_1 s' (Suc (next_free s)) = ref" "get_f32 s' (next_free s) = img"
      using extends_get [OF ok(2)] ra ia s2 by simp_all
    have lt: "next_free s < next_free s'" "Suc (next_free s) < next_free s'"
      using extends_next [OF ok(2)] s2(1) by simp_all
    have e5: "extends s s5" unfolding s5_def
      by (intro extends_put_trans extends_trans [OF s2(2) ok(2)])
    have e7: "extends s s7" unfolding s7_def by (intro extends_put_trans e5)
    have cn: "(np_cols corrected (w - off - bw) (w - off) = []) = (cref = [])"
      by (simp add: cref_def)
    have st: "apply_correction_st nan16 p bw off win s =
        (if cref = [] then (Inl ValueError, s5) else (Inr (Suc (next_free s5), True), s7))"
      using lt
      by (simp add: apply_correction_st_def Let_def ok(1) old
          s2_def [symmetric] ref_def [symmetric] w_def [symmetric] img_def [symmetric]
          band_def [symmetric] corrected_def [symmetric] cref_def [symmetric]
          s5_def s7_def cn)
    have n5: "next_free s \<le> next_free s5" using extends_next [OF e5] .
    have ma: "moving_average_1d ref win = Inr (get_f32_1 s' y)" using ok(5) s2(3) by simp
    have pure': "apply_correction nan16 (get_u16 s p) bw off win =
        (if cref = [] then Inl ValueError
         else Inr (map (map (\<lambda>v. astype_u16 nan16 (np_clip 0 65535 v))) corrected, True))"
      unfolding pure ma cref_def corrected_def band_def by simp
    have out: "cells s7 (Suc (next_free s5))
               = Some (U16 (map (map (\<lambda>v. astype_u16 nan16 (np_clip 0 65535 v))) corrected))"
      unfolding s7_def clip_then_cast by simp
    have n7: "next_free s7 = Suc (Suc (next_free s5))" by (simp add: s7_def)
    show ?thesis
      using e5 e7 n5 by (simp add: st pure' out n7)
  qed
qed

lemma correct_banding_st_refines:
  assumes "p < next_free s"
  shows "case correct_banding_st nan16 p bw off win ad th ao s of
           (r, s') \<Rightarrow> extends s s' \<and>
             (case r of
                Inl e \<Rightarrow> correct_banding nan16 (get_u16 s p) bw off win ad th ao = Inl e
              | Inr (q, applied) \<Rightarrow> next_free s \<le> q \<and> q < next_free s' \<and>
                  (\<exists>out. cells s' q = Some (U16 out) \<and>
                     correct_banding nan16 (get_u16 s p) bw off win ad th ao = Inr (out, applied)))"
proof -
  let ?img = "get_u16 s p"
  \<comment> \<open>the window after the optional search\<close>
  obtain r1 s1 where o: "(if ao
            then (case optimize_smooth_window_st p bw off None s of
                    (Inl e, s) \<Rightarrow> (Inl e, s)
                  | (Inr (best_window, _), s) \<Rightarrow> (Inr best_window, s))
            else (Inr win, s)) = (r1, s1)"
    by (cases "if ao
            then (case optimize_smooth_window_st p bw off None s of
                    (Inl e, s) \<Rightarrow> (Inl e, s)
                  | (Inr (best_window, _), s) \<Rightarrow> (Inr best_window, s))
            else (Inr win, s)")
  have e1: "extends s s1"
    and p1: "r1 = (if ao
            then (case optimize_smooth_window ?img bw off None of
                    Inl e \<Rightarrow> Inl e
                  | Inr (best_window, _) \<Rightarrow> Inr best_window)
            else Inr win)"
    using o optimize_smooth_window_st_refines [OF assms, of bw off None]
    by (auto split: if_splits prod.splits sum.splits)
  have lt1: "p < next_free s1" using assms extends_next [OF e1] by simp
  have g1: "get_u16 s1 p = ?img" using extends_get [OF e1 assms] by simp
  have st1: "correct_banding_st nan16 p bw off win ad th ao s =
     (case (r1, s1) of
        (Inl e, s) \<Rightarrow> (Inl e, s)
      | (Inr smooth_win, s) \<Rightarrow>
          (case (if ad
                 then (case detect_banding_st p bw off smooth_win th s of
                         (Inl e, s) \<Rightarrow> (Inl e, s)
                       | (Inr (has_banding, band_std), s) \<Rightarrow> (Inr (\<not> has_banding), s))
                 else (Inr False, s)) of
             (Inl e, s) \<Rightarrow> (Inl e, s)
           | (Inr skip, s) \<Rightarrow>
               if skip
               then let out = next_free s; s = put (U16 (get_u16 s p)) s
                    in (Inr (out, False), s)
               else apply_correction_st nan16 p bw off smooth_win s))"
    unfolding correct_banding_st_def o ..
  have pure1: "correct_banding nan16 ?img bw off win ad th ao =
     (case r1 of
        Inl e \<Rightarrow> Inl e
      | Inr smooth_win \<Rightarrow>
          (case (if ad
                 then (case detect_banding ?img bw off smooth_win th of
                         Inl e \<Rightarrow> Inl e
                       | Inr (has_banding, band_std) \<Rightarrow> Inr (\<not> has_banding))
                 else Inr False) of
             Inl e \<Rightarrow> Inl e
           | Inr skip \<Rightarrow>
               if skip then Inr (?img, False)
               else apply_correction nan16 ?img bw off smooth_win))"
    unfolding correct_banding_def p1 [symmetric] ..
  show ?thesis
  proof (cases r1)
    case (Inl e)
    show ?thesis unfolding st1 pure1 Inl using e1 by simp
  next
    case (Inr w)
    obtain r2 s2 where d: "(if ad
                 then (case detect_banding_st p bw off w th s1 of
                         (Inl e, s) \<Rightarrow> (Inl e, s)
                       | (Inr (has_banding, band_std), s) \<Rightarrow> (Inr (\<not> has_banding), s))
                 else (Inr False, s1)) = (r2, s2)"
      by (cases "if ad
                 then (case detect_banding_st p bw off w th s1 of
                         (Inl e, s) \<Rightarrow> (Inl e, s)
                       | (Inr (has_banding, band_std), s) \<Rightarrow> (Inr (\<not> has_banding), s))
                 else (Inr False, s1)")
    have e2: "extends s1 s2"
      and p2: "r2 = (if ad
                 then (case detect_banding ?img bw off w th of
                         Inl e \<Rightarrow> Inl e
                       | Inr (has_banding, band_std) \<Rightarrow> Inr (\<not> has_banding))
                 else Inr False)"
      using d detect_banding_st_refines [OF lt1, of bw off w th] g1
      by (auto split: if_splits prod.splits sum.splits)
    have e12: "extends s s2" by (rule extends_trans [OF e1 e2])
    have lt2: "p < next_free s2" using lt1 extends_next [OF e2] by simp
    have g2: "get_u16 s2 p = ?img" using extends_get [OF e12 assms] by simp
    have st: "correct_banding_st nan16 p bw off win ad th ao s =
        (case (r2, s2) of
             (Inl e, s) \<Rightarrow> (Inl e, s)
           | (Inr skip, s) \<Rightarrow>
               if skip
               then let out = next_free s; s = put (U16 (get_u16 s p)) s
                    in (Inr (out, False), s)
               else apply_correction_st nan16 p bw off w s)"
      unfolding st1 Inr using d by simp
    have pure: "correct_banding nan16 ?img bw off win ad th ao =
        (case r2 of
             Inl e \<Rightarrow> Inl e
           | Inr skip \<Rightarrow>
               if skip then Inr (?img, False)
               else apply_correction nan16 ?img bw off w)"
      unfolding pure1 Inr using p2 by simp
    show ?thesis
    proof (cases r2)
      case (Inl e)
      with e12 show ?thesis by (simp add: st pure)
    next
      case skip: (Inr skip)
      show ?thesis
      proof (cases skip)
        case True
        with skip e12 extends_next [OF e12] g2 show ?thesis
          by (simp add: st pure Let_def)
      next
        case False
        from apply_correction_st_refines [OF lt2, of nan16 bw off w] skip False e12
          extends_next [OF e12] g2
        show ?thesis
          by (auto simp: st pure split: prod.splits sum.splits intro: extends_trans [OF e12])
      qed
    qed
  qed
qed

section \<open>Rounding: auxiliary facts\<close>

lemma fl32_binade:
  assumes "2 powr of_int e \<le> \<bar>x\<bar>" "\<bar>x\<bar> < 2 powr of_int (e + 1)"
  shows "fl32 x = of_int (round_even (x / 2 powr of_int (e - 23))) * 2 powr of_int (e - 23)"
proof -
  have "0 < (2 :: real) powr of_int e" by simp
  with assms(1) have pos: "0 < \<bar>x\<bar>" by linarith
  have "\<lfloor>log 2 \<bar>x\<bar>\<rfloor> = e"
    using assms pos by (subst floor_log_eq_powr_iff) simp_all
  moreover have "x \<noteq> 0" using pos by simp
  ultimately show ?thesis by (simp add: fl32_def Let_def)
qed

lemma fl32_0 [simp]: "fl32 0 = 0"
  by (simp add: fl32_def)

lemmas fl32_eval = round_even_def Let_def powr_neg_numeral powr_numeral

lemma fl32_v0 [simp]: "fl32 (- (11184811 / 33554432)) = - (11184811 / 33554432)"
  by (subst fl32_binade [where e = "- 2"]) (simp_all add: fl32_eval)

lemma fl32_v1 [simp]: "fl32 (1 / 6) = 11184811 / 67108864"
  by (subst fl32_binade [where e = "- 3"]) (simp_all add: fl32_eval)

lemma fl32_v2 [simp]: "fl32 (11184811 / 67108864) = 11184811 / 67108864"
  by (subst fl32_binade [where e = "- 3"]) (simp_all add: fl32_eval)

lemma fl32_v3 [simp]: "fl32 (1 / 3) = 11184811 / 33554432"
  by (subst fl32_binade [where e = "- 2"]) (simp_all add: fl32_eval)

lemma fl32_v4 [simp]: "fl32 (11184811 / 33554432) = 11184811 / 33554432"
  by (subst fl32_binade [where e = "- 2"]) (simp_all add: fl32_eval)

lemma fl32_v5 [simp]: "fl32 (2796203 / 8388608) = 2796203 / 8388608"
  by (subst fl32_binade [where e = "- 2"]) (simp_all add: fl32_eval)

lemma fl32_v6 [simp]: "fl32 (1 / 2) = 1 / 2"
  by (subst fl32_binade [where e = "- 1"]) (simp_all add: fl32_eval)

lemma fl32_v7 [simp]: "fl32 (33554433 / 67108864) = 1 / 2"
  by (subst fl32_binade [where e = "- 1"]) (simp_all add: fl32_eval)

lemma fl32_v8 [simp]: "fl32 (22369621 / 33554432) = 5592405 / 8388608"
  by (subst fl32_binade [where e = "- 1"]) (simp_all add: fl32_eval)

lemma fl32_v9 [simp]: "fl32 (44739243 / 67108864) = 11184811 / 16777216"
  by (subst fl32_binade [where e = "- 1"]) (simp_all add: fl32_eval)

lemma fl32_v10 [simp]: "fl32 (11184811 / 16777216) = 11184811 / 16777216"
  by (subst fl32_binade [where e = "- 1"]) (simp_all add: fl32_eval)

lemma fl32_v11 [simp]: "fl32 (55924055 / 67108864) = 6990507 / 8388608"
  by (subst fl32_binade [where e = "- 1"]) (simp_all add: fl32_eval)

lemma fl32_v12 [simp]: "fl32 (1) = 1"
  by (subst fl32_binade [where e = "0"]) (simp_all add: fl32_eval)

lemma fl32_v13 [simp]: "fl32 (33554433 / 33554432) = 1"
  by (subst fl32_binade [where e = "0"]) (simp_all add: fl32_eval)

lemma fl32_v14 [simp]: "fl32 (67108867 / 67108864) = 1"
  by (subst fl32_binade [where e = "0"]) (simp_all add: fl32_eval)

lemma fl32_v15 [simp]: "fl32 (78293675 / 67108864) = 9786709 / 8388608"
  by (subst fl32_binade [where e = "0"]) (simp_all add: fl32_eval)

lemma fl32_v16 [simp]: "fl32 (89478483 / 67108864) = 5592405 / 4194304"
  by (subst fl32_binade [where e = "0"]) (simp_all add: fl32_eval)

lemma fl32_v17 [simp]: "fl32 (11184811 / 8388608) = 11184811 / 8388608"
  by (subst fl32_binade [where e = "0"]) (simp_all add: fl32_eval)

lemma fl32_v18 [simp]: "fl32 (100663291 / 67108864) = 12582911 / 8388608"
  by (subst fl32_binade [where e = "0"]) (simp_all add: fl32_eval)

lemma fl32_v19 [simp]: "fl32 (3 / 2) = 3 / 2"
  by (subst fl32_binade [where e = "0"]) (simp_all add: fl32_eval)

lemma fl32_v20 [simp]: "fl32 (111848099 / 67108864) = 3495253 / 2097152"
  by (subst fl32_binade [where e = "0"]) (simp_all add: fl32_eval)

lemma fl32_v21 [simp]: "fl32 (111848107 / 67108864) = 13981013 / 8388608"
  by (subst fl32_binade [where e = "0"]) (simp_all add: fl32_eval)

lemma fl32_v22 [simp]: "fl32 (123032915 / 67108864) = 7689557 / 4194304"
  by (subst fl32_binade [where e = "0"]) (simp_all add: fl32_eval)

lemma fl32_v23 [simp]: "fl32 (134217723 / 67108864) = 16777215 / 8388608"
  by (subst fl32_binade [where e = "0"]) (simp_all add: fl32_eval)

lemma fl32_v24 [simp]: "fl32 (2) = 2"
  by (subst fl32_binade [where e = "1"]) (simp_all add: fl32_eval)

lemma fl32_v25 [simp]: "fl32 (33554433 / 16777216) = 2"
  by (subst fl32_binade [where e = "1"]) (simp_all add: fl32_eval)

lemma fl32_v26 [simp]: "fl32 (145402539 / 67108864) = 9087659 / 4194304"
  by (subst fl32_binade [where e = "1"]) (simp_all add: fl32_eval)

lemma fl32_v27 [simp]: "fl32 (156587355 / 67108864) = 4893355 / 2097152"
  by (subst fl32_binade [where e = "1"]) (simp_all add: fl32_eval)

lemma fl32_v28 [simp]: "fl32 (5 / 2) = 5 / 2"
  by (subst fl32_binade [where e = "1"]) (simp_all add: fl32_eval)

lemma fl32_v29 [simp]: "fl32 (178956971 / 67108864) = 11184811 / 4194304"
  by (subst fl32_binade [where e = "1"]) (simp_all add: fl32_eval)

lemma fl32_v30 [simp]: "fl32 (44739243 / 16777216) = 11184811 / 4194304"
  by (subst fl32_binade [where e = "1"]) (simp_all add: fl32_eval)

lemma fl32_v31 [simp]: "fl32 (3) = 3"
  by (subst fl32_binade [where e = "1"]) (simp_all add: fl32_eval)

lemma fl32_v32 [simp]: "fl32 (19573419 / 4194304) = 4893355 / 1048576"
  by (subst fl32_binade [where e = "2"]) (simp_all add: fl32_eval)

lemma fl32_v33 [simp]: "fl32 (6) = 6"
  by (subst fl32_binade [where e = "2"]) (simp_all add: fl32_eval)

lemma round_even_err: "\<bar>of_int (round_even r) - r\<bar> \<le> 1 / 2"
  unfolding round_even_def Let_def by (auto; linarith)


lemma fl32_rel_err: "\<bar>fl32 x - x\<bar> \<le> \<bar>x\<bar> / 2 ^ 24"
proof (cases "x = 0")
  case True
  then show ?thesis by simp
next
  case False
  define e where "e = \<lfloor>log 2 \<bar>x\<bar>\<rfloor>"
  define ulp :: real where "ulp = 2 powr of_int (e - 23)"
  have ulp: "0 < ulp" by (simp add: ulp_def)
  have fl: "fl32 x = of_int (round_even (x / ulp)) * ulp"
    using False by (simp add: fl32_def Let_def e_def ulp_def)
  have "fl32 x - x = (of_int (round_even (x / ulp)) - x / ulp) * ulp"
    using ulp by (simp add: fl field_simps)
  then have "\<bar>fl32 x - x\<bar> = \<bar>of_int (round_even (x / ulp)) - x / ulp\<bar> * ulp"
    using ulp by (simp add: abs_mult)
  also have "\<dots> \<le> 1 / 2 * ulp"
    using round_even_err [of "x / ulp"] ulp by (intro mult_right_mono) simp_all
  also have "1 / 2 * ulp = 2 powr of_int e / 2 ^ 24"
  proof -
    have "ulp = 2 powr (of_int e - 23)" by (simp add: ulp_def)
    also have "\<dots> = 2 powr of_int e / 2 powr 23" by (simp add: powr_diff)
    also have "(2 :: real) powr 23 = 2 ^ 23" by (simp add: powr_numeral)
    finally show ?thesis by simp
  qed
  also have "2 powr of_int e \<le> \<bar>x\<bar>"
  proof -
    have "of_int e \<le> log 2 \<bar>x\<bar>" unfolding e_def by (rule of_int_floor_le)
    then have "2 powr of_int e \<le> 2 powr log 2 \<bar>x\<bar>" by (simp add: powr_le_cancel_iff)
    then show ?thesis using False by simp
  qed
  finally show ?thesis by (simp add: divide_right_mono)
qed

lemma fl32_abs_le: "\<bar>fl32 x\<bar> \<le> (1 + 1 / 2 ^ 24) * \<bar>x\<bar>"
proof -
  have "\<bar>fl32 x\<bar> \<le> \<bar>x\<bar> + \<bar>fl32 x - x\<bar>" by linarith
  also have "\<dots> \<le> \<bar>x\<bar> + \<bar>x\<bar> / 2 ^ 24" using fl32_rel_err [of x] by linarith
  finally show ?thesis by (simp add: algebra_simps)
qed







lemma np_convolve_valid_f32_long:
  assumes "v \<noteq> []" "length v \<le> length a"
  shows "np_convolve_valid_f32 dot a v =
    Inr (map (\<lambda>i. fdot dot (take (length v) (drop i a)) (rev v)) [0..<length a - length v + 1])"
  using assms by (auto simp add: np_convolve_valid_f32_def Let_def simp del: upt_Suc)





lemma sorted_nth_le_iff:
  fixes ys :: "real list"
  assumes "sorted ys" "k < length ys"
  shows "ys ! k \<le> t \<longleftrightarrow> k < length (filter (\<lambda>x. x \<le> t) ys)"
  using assms
proof (induction ys arbitrary: k)
  case Nil
  then show ?case by simp
next
  case (Cons y ys)
  show ?case
  proof (cases "y \<le> t")
    case True
    with Cons show ?thesis by (cases k) simp_all
  next
    case False
    with Cons.prems have "\<forall>x\<in>set (y # ys). \<not> x \<le> t" by auto
    then have "filter (\<lambda>x. x \<le> t) (y # ys) = []" by (simp only: filter_False)
    moreover have "(y # ys) ! k \<in> set (y # ys)" using Cons.prems(2) by (rule nth_mem)
    ultimately show ?thesis using \<open>\<forall>x\<in>set (y # ys). \<not> x \<le> t\<close> by (metis list.size(3) not_less0)
  qed
qed

lemma filter_le_length_mono:
  fixes cs ds :: "real list"
  assumes "list_all2 (\<le>) cs ds"
  shows "length (filter (\<lambda>x. x \<le> t) ds) \<le> length (filter (\<lambda>x. x \<le> t) cs)"
  using assms by (induction rule: list_all2_induct) auto

lemma sort_nth_mono:
  fixes cs ds :: "real list"
  assumes "list_all2 (\<le>) cs ds" "k < length cs"
  shows "sort cs ! k \<le> sort ds ! k"
proof -
  have len: "length cs = length ds" using assms(1) by (rule list_all2_lengthD)
  let ?t = "sort ds ! k"
  have "k < length (filter (\<lambda>x. x \<le> ?t) (sort ds))"
    using sorted_nth_le_iff [of "sort ds" k ?t] assms(2) len by simp
  also have "\<dots> = length (filter (\<lambda>x. x \<le> ?t) ds)"
    by (simp add: filter_sort)
  also have "\<dots> \<le> length (filter (\<lambda>x. x \<le> ?t) cs)"
    by (rule filter_le_length_mono [OF assms(1)])
  also have "\<dots> = length (filter (\<lambda>x. x \<le> ?t) (sort cs))"
    by (simp add: filter_sort)
  finally show ?thesis
    using sorted_nth_le_iff [of "sort cs" k ?t] assms(2) by simp
qed

lemma sort_nth_close:
  fixes f g :: "real \<Rightarrow> real"
  assumes "\<forall>v\<in>set vs. \<bar>f v - (v - b)\<bar> \<le> eps" "k < length vs"
  shows "\<bar>sort (map f vs) ! k - (sort vs ! k - b)\<bar> \<le> eps"
proof -
  have e: "f (vs ! i) \<le> vs ! i - (b - eps) \<and> vs ! i - (b + eps) \<le> f (vs ! i)"
    if "i < length vs" for i
  proof -
    from that have "vs ! i \<in> set vs" by (rule nth_mem)
    with assms(1) have "\<bar>f (vs ! i) - (vs ! i - b)\<bar> \<le> eps" by blast
    then show ?thesis by linarith
  qed
  have up: "list_all2 (\<le>) (map f vs) (map (\<lambda>v. v - (b - eps)) vs)"
    using e by (simp add: list_all2_conv_all_nth)
  have lo: "list_all2 (\<le>) (map (\<lambda>v. v - (b + eps)) vs) (map f vs)"
    using e by (simp add: list_all2_conv_all_nth)
  have "sort (map f vs) ! k \<le> sort (map (\<lambda>v. v - (b - eps)) vs) ! k"
    using sort_nth_mono [OF up] assms(2) by simp
  moreover have "sort (map (\<lambda>v. v - (b + eps)) vs) ! k \<le> sort (map f vs) ! k"
    using sort_nth_mono [OF lo] assms(2) by simp
  ultimately show ?thesis
    using assms(2) by (simp add: sort_shift abs_le_iff)
qed

lemma sort_nth_abs_le:
  fixes cs :: "real list"
  assumes "\<forall>c\<in>set cs. \<bar>c\<bar> \<le> B" "k < length cs"
  shows "\<bar>sort cs ! k\<bar> \<le> B"
proof -
  have "sort cs ! k \<in> set (sort cs)" using assms(2) by (intro nth_mem) simp
  then show ?thesis using assms(1) by simp
qed

lemma np_median_f32_Fin:
  "rs \<noteq> [] \<Longrightarrow> np_median_f32 (map Fin rs) =
     Fin (if odd (length rs) then sort rs ! (length rs div 2)
          else fl32 (fl32 (sort rs ! (length rs div 2 - 1) + sort rs ! (length rs div 2)) / 2))"
  by (simp add: np_median_f32_def list_all_iff Let_def comp_def)

lemma fl32_half_err:
  "\<bar>fl32 (fl32 x / 2) - x / 2\<bar> \<le> ((1 + 1 / 2 ^ 24) ^ 2 - 1) * (\<bar>x\<bar> / 2)"
proof -
  define u :: real where "u = 1 / 2 ^ 24"
  have u: "0 \<le> u" by (simp add: u_def)
  have a: "\<bar>fl32 x - x\<bar> \<le> u * \<bar>x\<bar>" using fl32_rel_err [of x] by (simp add: u_def)
  have b: "\<bar>fl32 (fl32 x / 2) - fl32 x / 2\<bar> \<le> u * \<bar>fl32 x / 2\<bar>"
    using fl32_rel_err [of "fl32 x / 2"] by (simp add: u_def)
  have c: "\<bar>fl32 x\<bar> \<le> (1 + u) * \<bar>x\<bar>" using fl32_abs_le [of x] by (simp add: u_def)
  have "u * \<bar>fl32 x / 2\<bar> \<le> u * ((1 + u) * \<bar>x\<bar> / 2)"
    using c u by (intro mult_left_mono) simp_all
  with a b have "\<bar>fl32 (fl32 x / 2) - x / 2\<bar> \<le> u * ((1 + u) * \<bar>x\<bar> / 2) + u * \<bar>x\<bar> / 2"
    by linarith
  also have "\<dots> = ((1 + u) ^ 2 - 1) * (\<bar>x\<bar> / 2)"
    by (simp add: power2_eq_square algebra_simps add_divide_distrib)
  finally show ?thesis by (simp add: u_def)
qed

lemma avg_abs_le: "\<bar>p\<bar> \<le> B \<Longrightarrow> \<bar>q\<bar> \<le> B \<Longrightarrow> \<bar>p + q\<bar> / 2 \<le> (B :: real)"
  by (simp add: abs_le_iff field_simps)

lemma avg_close:
  "\<bar>p - (a - b)\<bar> \<le> t \<Longrightarrow> \<bar>q - (a' - b)\<bar> \<le> t \<Longrightarrow> \<bar>(p + q) / 2 - ((a + a') / 2 - b)\<bar> \<le> (t :: real)"
  by (simp add: abs_le_iff field_simps)

lemma abs_chain2:
  "\<bar>c - (m - b)\<bar> \<le> t2 \<Longrightarrow> \<bar>m - s - b\<bar> \<le> t4 \<Longrightarrow> \<bar>c - s\<bar> \<le> t2 + (t4 :: real)"
  by linarith

lemma abs_chain4:
  "\<bar>c - x\<bar> \<le> t1 \<Longrightarrow> \<bar>x - (M - b)\<bar> \<le> t2 \<Longrightarrow> \<bar>m - M\<bar> \<le> t3 \<Longrightarrow> \<bar>m - s - b\<bar> \<le> t4
   \<Longrightarrow> \<bar>c - s\<bar> \<le> t1 + t2 + t3 + (t4 :: real)"
  by linarith

lemma corrected_median_err:
  fixes vs :: "real list"
  assumes ne: "vs \<noteq> []" and med: "np_median_f32 (map Fin vs) = Fin m"
  shows "\<exists>c. np_median_f32 (map (\<lambda>v. fsub32 v (Fin (fl32 (m - s)))) (map Fin vs)) = Fin c
           \<and> \<bar>c - s\<bar> \<le> ((1 + 1 / 2 ^ 24) ^ 3 - 1)
                 * (Max ((\<lambda>v. \<bar>v - fl32 (m - s)\<bar>) ` set vs) + Max (abs ` set vs) + \<bar>m - s\<bar>)"
proof -
  define u :: real where "u = 1 / 2 ^ 24"
  define E2 where "E2 = (1 + u) ^ 2 - 1"
  define E3 where "E3 = (1 + u) ^ 3 - 1"
  define b where "b = fl32 (m - s)"
  define A where "A = Max ((\<lambda>v. \<bar>v - b\<bar>) ` set vs)"
  define V where "V = Max (abs ` set vs)"
  define cs where "cs = map (\<lambda>v. fl32 (v - b)) vs"
  define n where "n = length vs"
  define h where "h = n div 2"
  have u: "0 \<le> u" by (simp add: u_def)
  have E2: "E2 = u * (1 + u) + u" by (simp add: E2_def power2_eq_square algebra_simps)
  have E3: "E3 = E2 * (1 + u) + u" by (simp add: E3_def E2_def power3_eq_cube power2_eq_square algebra_simps)
  have E2u: "u \<le> E2" unfolding E2 using u by simp
  have E20: "0 \<le> E2" using E2u u by linarith
  have E3E2: "E2 \<le> E3"
  proof -
    have "0 \<le> E2 * u" using E20 u by simp
    then show ?thesis unfolding E3 using u by (simp add: algebra_simps)
  qed
  have E3u: "u \<le> E3" using E2u E3E2 by linarith
  have Ab: "\<bar>v - b\<bar> \<le> A" if "v \<in> set vs" for v
    unfolding A_def using that by (intro Max_ge) auto
  have Vb: "\<bar>v\<bar> \<le> V" if "v \<in> set vs" for v
    unfolding V_def using that by (intro Max_ge) auto
  obtain v0 where v0: "v0 \<in> set vs" using ne by (cases vs) auto
  have A0: "0 \<le> A" using Ab [OF v0] by linarith
  have V0: "0 \<le> V" using Vb [OF v0] by linarith
  have npos: "0 < n" using ne by (simp add: n_def)
  have lcs: "length cs = n" by (simp add: cs_def n_def)
  have cne: "cs \<noteq> []" using ne by (simp add: cs_def)
  have conv: "map (\<lambda>v. fsub32 v (Fin b)) (map Fin vs) = map Fin cs"
    by (simp add: cs_def)
  have close: "\<forall>v\<in>set vs. \<bar>fl32 (v - b) - (v - b)\<bar> \<le> u * A"
  proof
    fix v assume v: "v \<in> set vs"
    have "\<bar>fl32 (v - b) - (v - b)\<bar> \<le> u * \<bar>v - b\<bar>"
      using fl32_rel_err [of "v - b"] by (simp add: u_def)
    also have "\<dots> \<le> u * A" using Ab [OF v] u by (intro mult_left_mono)
    finally show "\<bar>fl32 (v - b) - (v - b)\<bar> \<le> u * A" .
  qed
  have K: "\<bar>sort cs ! k - (sort vs ! k - b)\<bar> \<le> u * A" if "k < n" for k
    unfolding cs_def using close that by (intro sort_nth_close) (simp_all add: n_def)
  have cb: "\<forall>c\<in>set cs. \<bar>c\<bar> \<le> (1 + u) * A"
  proof
    fix c assume "c \<in> set cs"
    then obtain v where v: "v \<in> set vs" and c: "c = fl32 (v - b)" by (auto simp: cs_def)
    have "\<bar>c\<bar> \<le> (1 + u) * \<bar>v - b\<bar>" unfolding c using fl32_abs_le [of "v - b"] by (simp add: u_def)
    also have "\<dots> \<le> (1 + u) * A" using Ab [OF v] u by (intro mult_left_mono) simp_all
    finally show "\<bar>c\<bar> \<le> (1 + u) * A" .
  qed
  have Cb: "\<bar>sort cs ! k\<bar> \<le> (1 + u) * A" if "k < n" for k
    using cb that lcs by (intro sort_nth_abs_le) simp_all
  have Sb: "\<bar>sort vs ! k\<bar> \<le> V" if "k < n" for k
    using Vb that by (intro sort_nth_abs_le) (simp_all add: n_def)
  have d: "\<bar>m - s - b\<bar> \<le> u * \<bar>m - s\<bar>"
    using fl32_rel_err [of "m - s"] by (simp add: b_def u_def abs_minus_commute)
  have mv: "m = (if odd n then sort vs ! h
                 else fl32 (fl32 (sort vs ! (h - 1) + sort vs ! h) / 2))"
    using med np_median_f32_Fin [OF ne] by (auto simp: n_def h_def)
  define c where "c = (if odd n then sort cs ! h
                       else fl32 (fl32 (sort cs ! (h - 1) + sort cs ! h) / 2))"
  have cm: "np_median_f32 (map Fin cs) = Fin c"
    using np_median_f32_Fin [OF cne] by (auto simp: c_def lcs h_def)
  have hn: "h < n" using npos by (simp add: h_def)
  have bound: "\<bar>c - s\<bar> \<le> E3 * (A + V + \<bar>m - s\<bar>)"
  proof (cases "odd n")
    case True
    then have c: "c = sort cs ! h" and m: "m = sort vs ! h" by (simp_all add: c_def mv)
    have "\<bar>c - (m - b)\<bar> \<le> u * A" unfolding c m by (rule K [OF hn])
    then have "\<bar>c - s\<bar> \<le> u * A + u * \<bar>m - s\<bar>" by (rule abs_chain2 [OF _ d])
    also have "\<dots> \<le> E3 * A + E3 * \<bar>m - s\<bar>"
      using E3u A0 by (intro add_mono mult_right_mono) simp_all
    also have "\<dots> \<le> E3 * (A + V + \<bar>m - s\<bar>)"
    proof -
      have "0 \<le> E3 * V" using E3u u V0 by simp
      then show ?thesis by (simp add: algebra_simps)
    qed
    finally show ?thesis .
  next
    case False
    then have ev: "even n" by simp
    with npos have h1: "h - 1 < n" and hpos: "0 < h" by (auto simp: h_def elim: evenE)
    let ?P = "sort cs ! (h - 1)" and ?Q = "sort cs ! h"
    let ?a = "sort vs ! (h - 1)" and ?q = "sort vs ! h"
    define M where "M = (?a + ?q) / 2"
    have c: "c = fl32 (fl32 (?P + ?Q) / 2)" and m: "m = fl32 (fl32 (?a + ?q) / 2)"
      using False by (simp_all add: c_def mv)
    have PQ: "\<bar>?P + ?Q\<bar> / 2 \<le> (1 + u) * A"
      by (rule avg_abs_le [OF Cb [OF h1] Cb [OF hn]])
    have aq: "\<bar>?a + ?q\<bar> / 2 \<le> V" by (rule avg_abs_le [OF Sb [OF h1] Sb [OF hn]])
    have 1: "\<bar>c - (?P + ?Q) / 2\<bar> \<le> E2 * ((1 + u) * A)"
    proof -
      have "\<bar>c - (?P + ?Q) / 2\<bar> \<le> E2 * (\<bar>?P + ?Q\<bar> / 2)"
        unfolding c using fl32_half_err [of "?P + ?Q"] by (simp add: E2_def u_def)
      also have "\<dots> \<le> E2 * ((1 + u) * A)" using PQ E20 by (intro mult_left_mono)
      finally show ?thesis .
    qed
    have 2: "\<bar>(?P + ?Q) / 2 - (M - b)\<bar> \<le> u * A"
      unfolding M_def by (rule avg_close [OF K [OF h1] K [OF hn]])
    have 3: "\<bar>m - M\<bar> \<le> E2 * V"
    proof -
      have "\<bar>m - M\<bar> \<le> E2 * (\<bar>?a + ?q\<bar> / 2)"
        unfolding m M_def using fl32_half_err [of "?a + ?q"] by (simp add: E2_def u_def)
      also have "\<dots> \<le> E2 * V" using aq E20 by (intro mult_left_mono)
      finally show ?thesis .
    qed
    have "\<bar>c - s\<bar> \<le> E2 * ((1 + u) * A) + u * A + E2 * V + u * \<bar>m - s\<bar>"
      by (rule abs_chain4 [OF 1 2 3 d])
    also have "\<dots> = E3 * A + E2 * V + u * \<bar>m - s\<bar>"
      unfolding E3 by (simp add: algebra_simps)
    also have "\<dots> \<le> E3 * A + E3 * V + E3 * \<bar>m - s\<bar>"
      using E3E2 E3u V0 A0 by (intro add_mono mult_right_mono) simp_all
    also have "\<dots> = E3 * (A + V + \<bar>m - s\<bar>)" by (simp add: algebra_simps)
    finally show ?thesis .
  qed
  have "np_median_f32 (map (\<lambda>v. fsub32 v (Fin b)) (map Fin vs)) = Fin c"
    unfolding conv by (rule cm)
  with bound show ?thesis
    unfolding b_def A_def V_def E3_def u_def by blast
qed

section \<open>The claims\<close>

lemma moving_average_1d_short:
  "win < 3 \<Longrightarrow> moving_average_1d x win = Inr x"
  by (simp add: moving_average_1d_def)

lemma fsum_replicate_Fin: "fsum (replicate n (Fin c)) = Fin (real n * c)"
  by (induction n) (simp_all add: fsum_def algebra_simps)

text \<open>
  Claim C9. For every profile and every window below 3, \<^verbatim>\<open>moving_average_1d\<close> (the
  one text of both scripts) returns the profile itself, sample for sample, as
  \<^verbatim>\<open>float32\<close>: no kernel is built and nothing is padded.
\<close>

theorem smooth_short_window_identity:
  assumes "win < 3"
  shows "moving_average_1d x win = Inr x"
  using assms by (rule moving_average_1d_short)

theorem smooth_short_window_identity_witness:
  "(2 :: int) < 3 \<and> moving_average_1d [Fin 7, NaN, Fin (1 / 2)] 2 = Inr [Fin 7, NaN, Fin (1 / 2)]"
  using smooth_short_window_identity [of 2 "[Fin 7, NaN, Fin (1 / 2)]"] by simp

text \<open>
  Claim C8. For every profile of length \<open>N \<ge> 1\<close> and every window \<open>\<ge> 3\<close>, also one
  larger than \<open>N\<close>, \<^verbatim>\<open>moving_average_1d\<close> raises nothing and returns \<open>N\<close> samples.
\<close>

theorem smooth_preserves_length:
  assumes "x \<noteq> []" and "3 \<le> win"
  shows "\<exists>y. moving_average_1d x win = Inr y \<and> length y = length x"
  using assms by (rule moving_average_1d_length)

theorem smooth_preserves_length_witness:
  "[Fin 1, Fin 2] \<noteq> [] \<and> (3 :: int) \<le> 5 \<and>
   (\<exists>y. moving_average_1d [Fin 1, Fin 2] 5 = Inr y \<and> length y = 2)"
  using smooth_preserves_length [of "[Fin 1, Fin 2]" 5] by (simp add: numeral_2_eq_2)

text \<open>
  Claim C3. Whenever \<^verbatim>\<open>detect_banding\<close> returns \<open>(has_banding, band_std)\<close>,
  \<open>band_std\<close> is the standard deviation of the reference profile minus its smoothed
  version, and \<open>has_banding\<close> is the strict comparison \<open>band_std > threshold\<close>: false
  at the threshold and below it (and on \<^verbatim>\<open>nan\<close>), true strictly above. It does return
  for every image with at least one row, and for every window below 3.
\<close>

theorem detect_banding_strict_threshold:
  "(\<forall>hb bs. detect_banding img bw off win th = Inr (hb, bs) \<longrightarrow>
      (\<exists>ref_slow. moving_average_1d (reference_profile img bw off) win = Inr ref_slow \<and>
         bs = np_std (sub_arr (reference_profile img bw off) ref_slow)) \<and>
      hb = (case bs of Fin b \<Rightarrow> th < b | NaN \<Rightarrow> False))
   \<and> (img \<noteq> [] \<or> win < 3 \<longrightarrow> (\<exists>hb bs. detect_banding img bw off win th = Inr (hb, bs)))"
proof -
  have "hb = (case bs of Fin b \<Rightarrow> th < b | NaN \<Rightarrow> False)"
    if "detect_banding img bw off win th = Inr (hb, bs)" for hb bs
  proof -
    from that have "hb = fgt bs th"
      by (auto simp: detect_banding_unfold split: sum.splits)
    then show ?thesis by (cases bs) simp_all
  qed
  moreover have "\<exists>ref_slow. moving_average_1d (reference_profile img bw off) win = Inr ref_slow \<and>
         bs = np_std (sub_arr (reference_profile img bw off) ref_slow)"
    if "detect_banding img bw off win th = Inr (hb, bs)" for hb bs
    using that by (auto simp: detect_banding_unfold split: sum.splits)
  moreover have "\<exists>hb bs. detect_banding img bw off win th = Inr (hb, bs)" if "img \<noteq> [] \<or> win < 3"
    using that detect_banding_error [of img bw off win th]
    by (metis old.prod.exhaust sum.exhaust_sel sum.collapse(1) not_less)
  ultimately show ?thesis by blast
qed

theorem detect_banding_strict_threshold_witness:
  "detect_banding [[0], [3]] 1 0 3 1 = Inr (False, Fin 1)
   \<and> (False \<longleftrightarrow> (case Fin 1 of Fin b \<Rightarrow> (1 :: real) < b | NaN \<Rightarrow> False))
   \<and> detect_banding [[0], [3]] 1 0 3 (1 / 2) = Inr (True, Fin 1)
   \<and> (True \<longleftrightarrow> (case Fin 1 of Fin b \<Rightarrow> (1 / 2 :: real) < b | NaN \<Rightarrow> False))
   \<and> [[0], [3 :: u16]] \<noteq> []
   \<and> (\<exists>hb bs. detect_banding [[0], [3]] 1 0 3 1 = Inr (hb, bs))"
proof -
  have a: "detect_banding [[0], [3]] 1 0 3 1 = Inr (False, Fin 1)"
    by (simp add: eval_defs)
  have b: "detect_banding [[0], [3]] 1 0 3 (1 / 2) = Inr (True, Fin 1)"
    by (simp add: eval_defs)
  have c: "[[0], [3 :: u16]] \<noteq> [] \<or> (3 :: int) < 3" by simp
  from a detect_banding_strict_threshold [of "[[0], [3]]" 1 0 3 1]
  have 1: "False \<longleftrightarrow> (case Fin 1 of Fin b \<Rightarrow> (1 :: real) < b | NaN \<Rightarrow> False)" by blast
  from b detect_banding_strict_threshold [of "[[0], [3]]" 1 0 3 "1 / 2"]
  have 2: "True \<longleftrightarrow> (case Fin 1 of Fin b \<Rightarrow> (1 / 2 :: real) < b | NaN \<Rightarrow> False)" by blast
  from c detect_banding_strict_threshold [of "[[0], [3]]" 1 0 3 1]
  have 3: "\<exists>hb bs. detect_banding [[0], [3]] 1 0 3 1 = Inr (hb, bs)" by blast
  from a b 1 2 3 show ?thesis by blast
qed

text \<open>
  Claim C4. With \<open>auto_detect\<close> on, when the detector reports no banding for the
  same stripe, threshold and window (the caller's window, or the optimizer's choice
  when \<open>auto_optimize\<close> is on as well), \<^verbatim>\<open>correct_banding\<close> returns the input
  image, sample for sample, and \<open>applied = False\<close>.
\<close>

theorem auto_detect_short_circuit:
  assumes "if auto_optimize
           then \<exists>score. optimize_smooth_window img bw off None = Inr (w, score)
           else w = win"
    and "detect_banding img bw off w th = Inr (False, band_std)"
  shows "correct_banding nan16 img bw off win True th auto_optimize = Inr (img, False)"
  using assms by (auto simp: correct_banding_def split: if_splits)

theorem auto_detect_short_circuit_witness:
  "(if False then \<exists>score. optimize_smooth_window [[0], [3]] 1 0 None = Inr (3, score) else (3 :: int) = 3)
   \<and> detect_banding [[0], [3]] 1 0 3 1 = Inr (False, Fin 1)
   \<and> correct_banding 0 [[0], [3]] 1 0 3 True 1 False = Inr ([[0], [3]], False)"
proof -
  have a: "if False then \<exists>score. optimize_smooth_window [[0], [3]] 1 0 None = Inr (3, score)
           else (3 :: int) = 3" by simp
  have b: "detect_banding [[0], [3]] 1 0 3 1 = Inr (False, Fin 1)"
    by (simp add: eval_defs)
  from auto_detect_short_circuit [OF a b, of 0] a b show ?thesis by blast
qed

text \<open>
  Claim C5. Every sample of an image that \<^verbatim>\<open>correct_banding\<close> returns (either
  script's) lies in \<open>[0, 65535]\<close>. Where the correction is applied, the sample at
  line \<open>r\<close> is the input sample minus a per-line residual \<open>band[r]\<close>, saturated at 0
  and at 65535 and truncated: clipping and casting never wrap around, whatever the
  residual. Where it is not applied the output is the input.
\<close>

theorem corrected_samples_in_range:
  "(\<forall>out applied. correct_banding nan16 img bw off win ad th ao = Inr (out, applied) \<longrightarrow>
      list_all (list_all (\<lambda>s. 0 \<le> uint s \<and> uint s \<le> 65535)) out \<and>
      (if applied
       then \<exists>band. length band = length img \<and>
              out = map (\<lambda>(row, b). map (\<lambda>s. case fsub (astype_f32 s) b of
                                                  Fin v \<Rightarrow> word_of_int (saturate_u16 v)
                                                | NaN \<Rightarrow> nan16) row) (zip img band)
       else out = img))
   \<and> (\<forall>out. fixer_correct_banding nan16 img = Inr out \<longrightarrow>
      list_all (list_all (\<lambda>s. 0 \<le> uint s \<and> uint s \<le> 65535)) out \<and>
      (\<exists>band. length band = length img \<and>
              out = map (\<lambda>(row, b). map (\<lambda>s. case fsub (astype_f32 s) b of
                                                  Fin v \<Rightarrow> word_of_int (saturate_u16 v)
                                                | NaN \<Rightarrow> nan16) row) (zip img band)))
   \<and> (\<forall>v. 0 \<le> saturate_u16 v \<and> saturate_u16 v \<le> 65535 \<and>
          uint (astype_u16 nan16 (np_clip 0 65535 (Fin v))) = saturate_u16 v)"
proof (intro conjI allI impI)
  fix out applied
  assume a: "correct_banding nan16 img bw off win ad th ao = Inr (out, applied)"
  show "list_all (list_all (\<lambda>s. 0 \<le> uint s \<and> uint s \<le> 65535)) out"
    by (rule all_u16_range)
  show "if applied
       then \<exists>band. length band = length img \<and>
              out = map (\<lambda>(row, b). map (\<lambda>s. case fsub (astype_f32 s) b of
                                                  Fin v \<Rightarrow> word_of_int (saturate_u16 v)
                                                | NaN \<Rightarrow> nan16) row) (zip img band)
       else out = img"
  proof (cases applied)
    case True
    with correct_banding_Inr_cases [OF a] obtain w ref_slow where
      rs: "moving_average_1d (reference_profile img bw off) w = Inr ref_slow"
      and out: "out = map (map (\<lambda>v. astype_u16 nan16 (np_clip 0 65535 v)))
                        (sub_rows (map (map astype_f32) img)
                           (sub_arr (reference_profile img bw off) ref_slow))"
      by auto
    have "length (sub_arr (reference_profile img bw off) ref_slow) = length img"
      using moving_average_1d_Inr_length [OF rs] by simp
    with out True show ?thesis unfolding clip_cast_rows
      by (auto intro!: exI [of _ "sub_arr (reference_profile img bw off) ref_slow"])
  next
    case False
    with correct_banding_Inr_cases [OF a] show ?thesis by simp
  qed
next
  fix out
  assume a: "fixer_correct_banding nan16 img = Inr out"
  show "list_all (list_all (\<lambda>s. 0 \<le> uint s \<and> uint s \<le> 65535)) out"
    by (rule all_u16_range)
  let ?ref = "map np_median (map (\<lambda>row. py_slice row (- BLACK_W) (int (length row)))
                                  (map (map astype_f32) img))"
  from a obtain ref_slow where
    rs: "moving_average_1d ?ref SMOOTH_WIN = Inr ref_slow"
    and out: "out = map (map (\<lambda>v. astype_u16 nan16 (np_clip 0 65535 v)))
                      (sub_rows (map (map astype_f32) img) (sub_arr ?ref ref_slow))"
    unfolding fixer_unfold Let_def by (auto split: sum.splits)
  have "length (sub_arr ?ref ref_slow) = length img"
    using moving_average_1d_Inr_length [OF rs] by simp
  with out show "\<exists>band. length band = length img \<and>
              out = map (\<lambda>(row, b). map (\<lambda>s. case fsub (astype_f32 s) b of
                                                  Fin v \<Rightarrow> word_of_int (saturate_u16 v)
                                                | NaN \<Rightarrow> nan16) row) (zip img band)"
    unfolding clip_cast_rows by (auto intro!: exI [of _ "sub_arr ?ref ref_slow"])
next
  fix v
  show "0 \<le> saturate_u16 v" "saturate_u16 v \<le> 65535"
    using saturate_u16_range [of v] by simp_all
  show "uint (astype_u16 nan16 (np_clip 0 65535 (Fin v))) = saturate_u16 v"
    by (simp only: clip_cast_saturates uint_saturate)
qed

theorem corrected_samples_in_range_witness:
  "correct_banding 0 [[65535, 0], [0, 6]] 1 0 3 False 5 False = Inr ([[65535, 2], [0, 4]], True)
   \<and> list_all (list_all (\<lambda>s :: u16. 0 \<le> uint s \<and> uint s \<le> 65535)) [[65535, 2], [0, 4]]
   \<and> (\<exists>band. length band = length [[65535, 0], [0, 6 :: u16]] \<and>
         [[65535, 2], [0, 4 :: u16]] =
           map (\<lambda>(row, b). map (\<lambda>s. case fsub (astype_f32 s) b of
                                        Fin v \<Rightarrow> word_of_int (saturate_u16 v)
                                      | NaN \<Rightarrow> 0) row) (zip [[65535, 0], [0, 6]] band))"
proof -
  have a: "correct_banding 0 [[65535, 0], [0, 6]] 1 0 3 False 5 False
           = Inr ([[65535, 2], [0, 4]], True)"
    by (simp add: eval_defs)
  note t = corrected_samples_in_range [of 0 "[[65535, 0], [0, 6]]" 1 0 3 False 5 False,
      THEN conjunct1, rule_format, OF a]
  have ex: "\<exists>band. length band = length [[65535, 0], [0, 6 :: u16]] \<and>
         [[65535, 2], [0, 4 :: u16]] =
           map (\<lambda>(row, b). map (\<lambda>s. case fsub (astype_f32 s) b of
                                        Fin v \<Rightarrow> word_of_int (saturate_u16 v)
                                      | NaN \<Rightarrow> 0) row) (zip [[65535, 0], [0, 6]] band)"
    using t [THEN conjunct2] by (simp only: if_True)
  from t [THEN conjunct1] ex a show ?thesis by (intro conjI)
qed

lemma sqrt_quarter: "sqrt (1 / 4) = 1 / 2"
  by (rule real_sqrt_unique) (simp_all add: power2_eq_square)

lemma sqrt_nine_quarters: "sqrt (9 / 4) = 3 / 2"
  by (rule real_sqrt_unique) (simp_all add: power2_eq_square)

text \<open>
  Claim C1 says that the stripe extraction signals an error when the width is not
  positive or the stripe falls outside the columns. It does not: on a one-line image
  of 3 columns, width 5 silently takes columns 1 and 2 (the bound \<open>-2\<close> counts from
  the right edge) and width 0 takes no column at all; corrector and detector both
  return normally.
\<close>

theorem stripe_out_of_bounds_counterexample:
  "reference_stripe [[1, 2, 3]] 5 0 = [[Fin 2, Fin 3]]
   \<and> correct_banding 0 [[1, 2, 3]] 5 0 3 False 5 False = Inr ([[1, 2, 3]], True)
   \<and> detect_banding [[1, 2, 3]] 5 0 3 5 = Inr (False, Fin 0)
   \<and> reference_stripe [[1, 2, 3]] 0 0 = [[]]
   \<and> correct_banding 0 [[1, 2, 3]] 0 0 3 False 5 False = Inr ([[0, 0, 0]], True)
   \<and> detect_banding [[1, 2, 3]] 0 0 3 5 = Inr (False, NaN)"
  by (simp add: eval_defs)

lemma py_slice_in_bounds:
  assumes "0 < bw" "0 \<le> off" "off + bw \<le> int (length row)"
  shows "py_slice row (int (length row) - off - bw) (int (length row) - off)
           = take (nat bw) (drop (nat (int (length row) - off - bw)) row)"
proof -
  have a: "slice_index (length row) (int (length row) - off - bw) = nat (int (length row) - off - bw)"
    using assms by (simp add: slice_index_def)
  have b: "slice_index (length row) (int (length row) - off) = nat (int (length row) - off)"
    using assms by (simp add: slice_index_def)
  have "nat (int (length row) - off) - nat (int (length row) - off - bw) = nat bw"
    using assms by linarith
  then show ?thesis by (simp add: py_slice_def a b)
qed

lemma py_slice_no_width:
  assumes "bw \<le> 0" "0 \<le> off" "off \<le> int (length row)"
  shows "py_slice row (int (length row) - off - bw) (int (length row) - off) = []"
proof -
  have b: "slice_index (length row) (int (length row) - off) = nat (int (length row) - off)"
    using assms by (simp add: slice_index_def)
  have "nat (int (length row) - off) \<le> slice_index (length row) (int (length row) - off - bw)"
    using assms by (auto simp: slice_index_def)
  then show ?thesis by (simp add: py_slice_def b)
qed

text \<open>
  Claim C1, amended. For every image and every stripe geometry, also a width \<open>\<le> 0\<close>
  and a stripe outside the columns, the extraction signals no error: corrector and
  detector raise only \<^verbatim>\<open>ValueError\<close> on an image without lines, whatever the
  geometry. The stripe is the Python slice \<open>[W - offset - width : W - offset]\<close> of every
  line, its bounds clamped to \<open>[0, W]\<close> after a negative one has been counted from the
  right. For \<open>0 < width\<close>, \<open>0 \<le> offset\<close> and \<open>offset + width \<le> W\<close> it is the
  requested columns; for \<open>width \<le> 0\<close> and \<open>0 \<le> offset \<le> W\<close> it is empty.
\<close>

theorem stripe_geometry_never_raises:
  "((\<exists>e. correct_banding nan16 img bw off win ad th ao = Inl e)
      \<longleftrightarrow> (img = [] \<and> (ao \<or> 3 \<le> win \<or> \<not> ad)))
   \<and> ((\<exists>e. detect_banding img bw off win th = Inl e) \<longleftrightarrow> (img = [] \<and> 3 \<le> win))
   \<and> reference_stripe img bw off =
       map (\<lambda>row. map astype_f32
              (py_slice row (int (shape1 img) - off - bw) (int (shape1 img) - off))) img
   \<and> length (py_slice row a b) = slice_index (length row) b - slice_index (length row) a
   \<and> (0 < bw \<and> 0 \<le> off \<and> off + bw \<le> int (length row) \<longrightarrow>
        py_slice row (int (length row) - off - bw) (int (length row) - off)
          = take (nat bw) (drop (nat (int (length row) - off - bw)) row))
   \<and> (bw \<le> 0 \<and> 0 \<le> off \<and> off \<le> int (length row) \<longrightarrow>
        py_slice row (int (length row) - off - bw) (int (length row) - off) = [])"
proof -
  have "reference_stripe img bw off =
       map (\<lambda>row. map astype_f32
              (py_slice row (int (shape1 img) - off - bw) (int (shape1 img) - off))) img"
    by (simp add: reference_stripe_rows py_slice_map astype_f32_def comp_def)
  moreover have "length (py_slice row a b) = slice_index (length row) b - slice_index (length row) a"
    by (auto simp: py_slice_def Let_def slice_index_def)
  ultimately show ?thesis
    using correct_banding_error [of nan16 img bw off win ad th ao]
      detect_banding_error [of img bw off win th]
      py_slice_in_bounds [of bw off row] py_slice_no_width [of bw off row]
    by (simp only:) blast
qed

theorem stripe_geometry_never_raises_witness:
  "\<not> (\<exists>e. correct_banding 0 [[1, 2, 3]] 5 0 3 False 5 False = Inl e)
   \<and> \<not> (\<exists>e. detect_banding [[1, 2, 3]] 5 0 3 5 = Inl e)
   \<and> (0 :: int) < 2 \<and> (0 :: int) \<le> 1 \<and> 1 + 2 \<le> int (length [1, 2, 3 :: u16])
   \<and> py_slice [1, 2, 3 :: u16] (int (length [1, 2, 3 :: u16]) - 1 - 2)
        (int (length [1, 2, 3 :: u16]) - 1) = [1, 2]
   \<and> (0 :: int) \<le> 0 \<and> (0 :: int) \<le> int (length [1, 2, 3 :: u16])
   \<and> py_slice [1, 2, 3 :: u16] (int (length [1, 2, 3 :: u16]) - 0 - 0)
        (int (length [1, 2, 3 :: u16]) - 0) = []"
proof -
  note t = stripe_geometry_never_raises [of 0 "[[1, 2, 3]]" 5 0 3 False 5 False "[1, 2, 3] :: u16 list"]
  note u = stripe_geometry_never_raises [of 0 "[[1, 2, 3]]" 2 1 3 False 5 False "[1, 2, 3] :: u16 list"]
  note v = stripe_geometry_never_raises [of 0 "[[1, 2, 3]]" 0 0 3 False 5 False "[1, 2, 3] :: u16 list"]
  have h: "(0 :: int) < 2 \<and> (0 :: int) \<le> 1 \<and> 1 + 2 \<le> int (length [1, 2, 3 :: u16])" by simp
  have k: "(0 :: int) \<le> 0 \<and> (0 :: int) \<le> 0 \<and> 0 \<le> int (length [1, 2, 3 :: u16])" by simp
  from t [THEN conjunct1]
  have 1: "\<not> (\<exists>e. correct_banding 0 [[1, 2, 3]] 5 0 3 False 5 False = Inl e)" by simp
  from t [THEN conjunct2, THEN conjunct1]
  have 2: "\<not> (\<exists>e. detect_banding [[1, 2, 3]] 5 0 3 5 = Inl e)" by simp
  from u [THEN conjunct2, THEN conjunct2, THEN conjunct2, THEN conjunct2, THEN conjunct1] h have "py_slice [1, 2, 3 :: u16] (int (length [1, 2, 3 :: u16]) - 1 - 2)
        (int (length [1, 2, 3 :: u16]) - 1)
        = take (nat 2) (drop (nat (int (length [1, 2, 3 :: u16]) - 1 - 2)) [1, 2, 3])" by blast
  then have 3: "py_slice [1, 2, 3 :: u16] (int (length [1, 2, 3 :: u16]) - 1 - 2)
        (int (length [1, 2, 3 :: u16]) - 1) = [1, 2]" by simp
  from v [THEN conjunct2, THEN conjunct2, THEN conjunct2, THEN conjunct2, THEN conjunct2] k
  have 4: "py_slice [1, 2, 3 :: u16] (int (length [1, 2, 3 :: u16]) - 0 - 0)
        (int (length [1, 2, 3 :: u16]) - 0) = []" by blast
  from 1 2 3 4 h k show ?thesis by blast
qed

text \<open>
  Claim C2 says that the best score is the least standard deviation over the
  candidates, for every image. With the default stripe (width 10, offset 20) on an
  image of 3 columns the stripe is empty, every score is \<^verbatim>\<open>nan\<close>, no candidate is
  ever selected, and the result is the first candidate with the score \<^verbatim>\<open>inf\<close>.
\<close>

theorem optimizer_empty_stripe_counterexample:
  "optimize_smooth_window [[1, 2, 3], [4, 5, 6]] 10 20 (Some [10, 15]) = Inr (10, PosInf)
   \<and> window_score (reference_stripe [[1, 2, 3], [4, 5, 6]] 10 20)
        (reference_profile [[1, 2, 3], [4, 5, 6]] 10 20) 10 = Inr NaN
   \<and> window_score (reference_stripe [[1, 2, 3], [4, 5, 6]] 10 20)
        (reference_profile [[1, 2, 3], [4, 5, 6]] 10 20) 15 = Inr NaN
   \<and> reference_stripe [[1, 2, 3], [4, 5, 6]] 10 20 = [[], []]"
  by (simp add: eval_defs)

text \<open>
  Claim C2, amended. For every image with at least one line whose reference stripe
  has at least one column, and every non-empty candidate list,
  \<^verbatim>\<open>optimize_smooth_window\<close> returns \<open>(cands[i], s)\<close> where \<open>s\<close> is the score of
  \<open>cands[i]\<close>, every candidate's score is a finite number not below \<open>s\<close>, and every
  earlier candidate's score is strictly above \<open>s\<close>. Without a candidate list the
  candidates are the integers from 10 to \<open>min(512, H div 4)\<close> in steps of 5, or
  \<open>[10, 32, 64, 128, 256]\<close> when there is none.
\<close>

theorem optimizer_selects_first_minimum:
  assumes "cands \<noteq> []" and "img \<noteq> []"
    and "list_all (\<lambda>row. row \<noteq> []) (reference_stripe img bw off)"
  shows "(\<exists>i<length cands. \<exists>s.
            optimize_smooth_window img bw off (Some cands) = Inr (cands ! i, Score (Fin s)) \<and>
            window_score (reference_stripe img bw off) (reference_profile img bw off) (cands ! i)
              = Inr (Fin s) \<and>
            (\<forall>j<length cands. \<exists>t.
               window_score (reference_stripe img bw off) (reference_profile img bw off) (cands ! j)
                 = Inr (Fin t) \<and> s \<le> t \<and> (j < i \<longrightarrow> s < t)))
         \<and> optimize_smooth_window img bw off None
             = optimize_smooth_window img bw off (Some (default_candidates (length img)))
         \<and> default_candidates (length img) =
             (let r = filter (\<lambda>c. (c - 10) mod 5 = 0) [10..min 512 (int (length img) div 4)]
              in if r = [] then [10, 32, 64, 128, 256] else r)"
proof -
  let ?S = "reference_stripe img bw off" and ?R = "reference_profile img bw off"
  define sc where "sc c = the_Fin (projr (window_score ?S ?R c))" for c
  have sc: "window_score ?S ?R c = Inr (Fin (sc c))" for c
    using window_score_finite [OF assms(2,3), of c] by (auto simp: sc_def)
  from assms(1) obtain c0 rest where cs: "cands = c0 # rest" by (cases cands) auto
  have opt: "optimize_smooth_window img bw off (Some cands) = candidates_loop ?S ?R (c0 # rest) (c0, PosInf)"
    by (simp add: optimize_smooth_window_unfold cs)
  have "\<forall>c\<in>set (c0 # rest). window_score ?S ?R c = Inr (Fin (sc c))" using sc by blast
  from candidates_loop_first_min [OF this] obtain i where
    i: "i < length cands"
      "candidates_loop ?S ?R (c0 # rest) (c0, PosInf) = Inr (cands ! i, Score (Fin (sc (cands ! i))))"
      "\<forall>j<length cands. sc (cands ! i) \<le> sc (cands ! j)"
      "\<forall>j<i. sc (cands ! i) < sc (cands ! j)"
    unfolding cs by blast
  have "\<exists>t. window_score ?S ?R (cands ! j) = Inr (Fin t) \<and> sc (cands ! i) \<le> t \<and>
            (j < i \<longrightarrow> sc (cands ! i) < t)" if "j < length cands" for j
    using i(3,4) that sc [of "cands ! j"] by blast
  with i(1,2) opt sc [of "cands ! i"]
  have first: "\<exists>i<length cands. \<exists>s.
            optimize_smooth_window img bw off (Some cands) = Inr (cands ! i, Score (Fin s)) \<and>
            window_score ?S ?R (cands ! i) = Inr (Fin s) \<and>
            (\<forall>j<length cands. \<exists>t.
               window_score ?S ?R (cands ! j) = Inr (Fin t) \<and> s \<le> t \<and> (j < i \<longrightarrow> s < t))"
    by (intro exI [of _ i] exI [of _ "sc (cands ! i)"]) simp
  have "optimize_smooth_window img bw off None
          = optimize_smooth_window img bw off (Some (default_candidates (length img)))"
    by (simp add: optimize_smooth_window_unfold)
  with first default_candidates_spec [of "length img"] show ?thesis by (intro conjI)
qed

theorem optimizer_selects_first_minimum_witness:
  "[1, 3, 3 :: int] \<noteq> [] \<and> [[0], [3 :: u16]] \<noteq> []
   \<and> list_all (\<lambda>row. row \<noteq> []) (reference_stripe [[0], [3]] 1 0)
   \<and> optimize_smooth_window [[0], [3]] 1 0 (Some [1, 3, 3]) = Inr (3, Score (Fin (1 / 2)))
   \<and> window_score (reference_stripe [[0], [3]] 1 0) (reference_profile [[0], [3]] 1 0) 1
        = Inr (Fin (3 / 2))
   \<and> window_score (reference_stripe [[0], [3]] 1 0) (reference_profile [[0], [3]] 1 0) 3
        = Inr (Fin (1 / 2))
   \<and> (\<exists>i<length [1, 3, 3 :: int]. \<exists>s.
         optimize_smooth_window [[0], [3]] 1 0 (Some [1, 3, 3]) = Inr ([1, 3, 3] ! i, Score (Fin s)) \<and>
         window_score (reference_stripe [[0], [3]] 1 0) (reference_profile [[0], [3]] 1 0)
           ([1, 3, 3] ! i) = Inr (Fin s) \<and>
         (\<forall>j<length [1, 3, 3 :: int]. \<exists>t.
            window_score (reference_stripe [[0], [3]] 1 0) (reference_profile [[0], [3]] 1 0)
              ([1, 3, 3] ! j) = Inr (Fin t) \<and> s \<le> t \<and> (j < i \<longrightarrow> s < t)))
   \<and> optimize_smooth_window [[0], [3]] 1 0 None
       = optimize_smooth_window [[0], [3]] 1 0 (Some [10, 32, 64, 128, 256])"
proof -
  have h1: "[1, 3, 3 :: int] \<noteq> []" and h2: "[[0], [3 :: u16]] \<noteq> []" by simp_all
  have h3: "list_all (\<lambda>row. row \<noteq> []) (reference_stripe [[0], [3]] 1 0)"
    by (simp add: eval_defs)
  have e1: "optimize_smooth_window [[0], [3]] 1 0 (Some [1, 3, 3]) = Inr (3, Score (Fin (1 / 2)))"
    by (simp add: eval_defs power2_eq_square sqrt_quarter sqrt_nine_quarters)
  have e2: "window_score (reference_stripe [[0], [3]] 1 0) (reference_profile [[0], [3]] 1 0) 1
        = Inr (Fin (3 / 2))"
    by (simp add: eval_defs power2_eq_square sqrt_nine_quarters)
  have e3: "window_score (reference_stripe [[0], [3]] 1 0) (reference_profile [[0], [3]] 1 0) 3
        = Inr (Fin (1 / 2))"
    by (simp add: eval_defs power2_eq_square sqrt_quarter)
  have d: "default_candidates (length [[0], [3 :: u16]]) = [10, 32, 64, 128, 256]"
    by (simp add: default_candidates_def py_range_def)
  note t = optimizer_selects_first_minimum [OF h1 h2 h3]
  from t [THEN conjunct2, THEN conjunct1] d
  have e4: "optimize_smooth_window [[0], [3]] 1 0 None
       = optimize_smooth_window [[0], [3]] 1 0 (Some [10, 32, 64, 128, 256])"
    by (simp only:)
  from h1 h2 h3 e1 e2 e3 t [THEN conjunct1] e4 show ?thesis by (intro conjI)
qed

text \<open>
  Claim C6. Let the caller's image be the array at address \<open>p\<close> of the store. After
  \<^verbatim>\<open>correct_banding\<close>, \<^verbatim>\<open>detect_banding\<close> or \<^verbatim>\<open>optimize_smooth_window\<close>, also when
  the call raises, the array at \<open>p\<close> is the same, and so is every array the store held
  before. The image that \<^verbatim>\<open>correct_banding\<close> returns is at an address handed out
  during the call, different from \<open>p\<close>. The results are those of the functions on
  values.
\<close>

theorem core_never_mutates_input:
  assumes "cells s p = Some (U16 img)" and "p < next_free s"
  shows "(case correct_banding_st nan16 p bw off win ad th ao s of
            (r, s') \<Rightarrow> cells s' p = Some (U16 img) \<and> extends s s' \<and>
              (case r of
                 Inl e \<Rightarrow> correct_banding nan16 img bw off win ad th ao = Inl e
               | Inr (q, applied) \<Rightarrow> q \<noteq> p \<and> next_free s \<le> q \<and> q < next_free s' \<and>
                   (\<exists>out. cells s' q = Some (U16 out) \<and>
                      correct_banding nan16 img bw off win ad th ao = Inr (out, applied))))
         \<and> (case detect_banding_st p bw off win th s of
               (r, s') \<Rightarrow> cells s' p = Some (U16 img) \<and> extends s s' \<and>
                 r = detect_banding img bw off win th)
         \<and> (case optimize_smooth_window_st p bw off cands s of
               (r, s') \<Rightarrow> cells s' p = Some (U16 img) \<and> extends s s' \<and>
                 r = optimize_smooth_window img bw off cands)"
proof -
  have g: "get_u16 s p = img" using assms(1) by (simp add: get_u16_def)
  have keep: "cells s' p = Some (U16 img)" if "extends s s'" for s'
    using extends_get(4) [OF that assms(2)] assms(1) by simp
  have 1: "case correct_banding_st nan16 p bw off win ad th ao s of
            (r, s') \<Rightarrow> cells s' p = Some (U16 img) \<and> extends s s' \<and>
              (case r of
                 Inl e \<Rightarrow> correct_banding nan16 img bw off win ad th ao = Inl e
               | Inr (q, applied) \<Rightarrow> q \<noteq> p \<and> next_free s \<le> q \<and> q < next_free s' \<and>
                   (\<exists>out. cells s' q = Some (U16 out) \<and>
                      correct_banding nan16 img bw off win ad th ao = Inr (out, applied)))"
    using correct_banding_st_refines [OF assms(2), of nan16 bw off win ad th ao] assms(2) keep
    unfolding g by (auto split: prod.splits sum.splits)
  have 2: "case detect_banding_st p bw off win th s of
               (r, s') \<Rightarrow> cells s' p = Some (U16 img) \<and> extends s s' \<and>
                 r = detect_banding img bw off win th"
    using detect_banding_st_refines [OF assms(2), of bw off win th] keep
    unfolding g by (auto split: prod.splits)
  have 3: "case optimize_smooth_window_st p bw off cands s of
               (r, s') \<Rightarrow> cells s' p = Some (U16 img) \<and> extends s s' \<and>
                 r = optimize_smooth_window img bw off cands"
    using optimize_smooth_window_st_refines [OF assms(2), of bw off cands] keep
    unfolding g by (auto split: prod.splits)
  from 1 2 3 show ?thesis by (intro conjI)
qed

theorem core_never_mutates_input_witness:
  "cells (one_image_store [[65535, 0], [0, 6]]) 0 = Some (U16 [[65535, 0], [0, 6]])
   \<and> 0 < next_free (one_image_store [[65535, 0], [0, 6]])
   \<and> (\<exists>q s'. correct_banding_st 0 0 1 0 3 False 5 False (one_image_store [[65535, 0], [0, 6]])
                 = (Inr (q, True), s') \<and>
               q \<noteq> 0 \<and> cells s' 0 = Some (U16 [[65535, 0], [0, 6]]) \<and>
               cells s' q = Some (U16 [[65535, 2], [0, 4]]))
   \<and> (\<exists>s'. detect_banding_st 0 1 0 3 1 (one_image_store [[0], [3]]) = (Inr (False, Fin 1), s') \<and>
             cells s' 0 = Some (U16 [[0], [3]]))"
proof -
  let ?I = "[[65535, 0], [0, 6 :: u16]]" and ?J = "[[0], [3 :: u16]]"
  have a: "cells (one_image_store ?I) 0 = Some (U16 ?I)" "0 < next_free (one_image_store ?I)"
    and b: "cells (one_image_store ?J) 0 = Some (U16 ?J)" "0 < next_free (one_image_store ?J)"
    by (simp_all add: one_image_store_def)
  have c: "correct_banding 0 ?I 1 0 3 False 5 False = Inr ([[65535, 2], [0, 4]], True)"
    by (simp add: eval_defs)
  have d: "detect_banding ?J 1 0 3 1 = Inr (False, Fin 1)"
    by (simp add: eval_defs)
  obtain r s' where r: "correct_banding_st 0 0 1 0 3 False 5 False (one_image_store ?I) = (r, s')"
    by (cases "correct_banding_st 0 0 1 0 3 False 5 False (one_image_store ?I)")
  from core_never_mutates_input [OF a, of 0 1 0 3 False 5 False, THEN conjunct1] r c
  have 1: "\<exists>q s'. correct_banding_st 0 0 1 0 3 False 5 False (one_image_store ?I)
                 = (Inr (q, True), s') \<and>
               q \<noteq> 0 \<and> cells s' 0 = Some (U16 ?I) \<and>
               cells s' q = Some (U16 [[65535, 2], [0, 4]])"
    by (cases r) auto
  obtain r2 s2 where r2: "detect_banding_st 0 1 0 3 1 (one_image_store ?J) = (r2, s2)"
    by (cases "detect_banding_st 0 1 0 3 1 (one_image_store ?J)")
  from core_never_mutates_input [OF b, of 0 1 0 3 False 1 False, THEN conjunct2, THEN conjunct1]
    r2 d
  have 2: "\<exists>s'. detect_banding_st 0 1 0 3 1 (one_image_store ?J) = (Inr (False, Fin 1), s') \<and>
             cells s' 0 = Some (U16 ?J)"
    by auto
  from a 1 2 show ?thesis by (intro conjI)
qed

lemmas eval32_defs =
  moving_average_1d_f32_def np_convolve_valid_f32_def corrected_ref_of_f32_def
  np_median_f32_def np_pad_edge_def fdot_def dot_seq32_def upt_0_numeral upt_Suc0_numeral replicate_numeral Let_def




text \<open>
  Claim C10 says that the median profile of the corrected stripe equals the smoothed
  profile exactly. In \<^verbatim>\<open>float32\<close> it does not. For the image of the three lines
  \<open>0\<close>, \<open>1\<close>, \<open>0\<close> with a stripe of width 1 and window 3, the smoothed profile is
  \<open>k, k, k\<close> with \<open>k = 11184811 / 33554432\<close>, the rounded third. The residual of line 1
  is \<open>1 - k\<close> rounded, \<open>5592405 / 8388608\<close>, and the corrected sample \<open>1\<close> minus that
  residual is \<open>2796203 / 8388608\<close>, which is \<open>k - 2 ^ - 25\<close> and not \<open>k\<close>.
\<close>

theorem corrected_profile_rounds_counterexample:
  "reference_stripe [[0], [1], [0]] 1 0 = [[Fin 0], [Fin 1], [Fin 0]]
   \<and> moving_average_1d_f32 dot_seq32 (map np_median_f32 (reference_stripe [[0], [1], [0]] 1 0)) 3
       = Inr [Fin (11184811 / 33554432), Fin (11184811 / 33554432), Fin (11184811 / 33554432)]
   \<and> corrected_ref_of_f32 dot_seq32 (reference_stripe [[0], [1], [0]] 1 0)
         (map np_median_f32 (reference_stripe [[0], [1], [0]] 1 0)) 3
       = Inr [Fin (11184811 / 33554432), Fin (2796203 / 8388608), Fin (11184811 / 33554432)]
   \<and> (2796203 / 8388608 :: real) \<noteq> 11184811 / 33554432"
  by (simp add: eval32_defs eval_defs)

lemma moving_average_1d_f32_Inr_length:
  assumes "moving_average_1d_f32 dot x win = Inr y"
  shows "length y = length x"
proof (cases "win < 3")
  case True
  with assms show ?thesis by (simp add: moving_average_1d_f32_def)
next
  case False
  then have win: "3 \<le> win" by simp
  have ne: "x \<noteq> []"
    using assms win by (auto simp: moving_average_1d_f32_def Let_def split: if_splits)
  let ?w = "nat win" and ?l = "nat (win div 2)" and ?r = "nat (win - 1 - win div 2)"
  let ?xp = "np_pad_edge x ?l ?r" and ?k = "replicate ?w (Fin (fl32 (1 / fl32 (real_of_int win))))"
  have lr: "?l + ?r + 1 = ?w" using win by linarith
  have "length ?xp = ?l + length x + ?r" by (simp add: np_pad_edge_def)
  then have len: "length ?xp = length x + ?w - 1" using lr by linarith
  have pos: "0 < length x" using ne by simp
  have k: "?k \<noteq> []" "length ?k \<le> length ?xp"
  proof -
    show "?k \<noteq> []" using win by auto
    have "?w \<le> length x + ?w - 1" using pos by linarith
    then show "length ?k \<le> length ?xp" by (simp only: len length_replicate)
  qed
  have n: "length ?xp - ?w + 1 = length x" using len pos win by simp
  have "moving_average_1d_f32 dot x win = np_convolve_valid_f32 dot ?xp ?k"
    using win ne by (simp add: moving_average_1d_f32_def Let_def)
  with assms show ?thesis
    unfolding np_convolve_valid_f32_long [OF k, of dot] using n by (auto simp del: upt_Suc)
qed

lemma corrected_ref_of_f32_Inr:
  assumes "moving_average_1d_f32 dot ref w = Inr ref_slow"
  shows "corrected_ref_of_f32 dot stripe ref w =
           Inr (map np_median_f32
                  (map (\<lambda>(row, b). map (\<lambda>v. fsub32 v b) row)
                     (zip stripe (map (\<lambda>(x, y). fsub32 x y) (zip ref ref_slow)))))"
  unfolding corrected_ref_of_f32_def assms Let_def by simp

text \<open>
  Claim C10, amended. In \<^verbatim>\<open>optimize_smooth_window\<close>, for every candidate window for
  which the smoother returns, whatever the dot-product routine, the median profile of
  the corrected stripe is computed and has one sample per image line, as the smoothed
  profile has. At every line \<open>r\<close> whose stripe holds the samples \<open>vs\<close>, at least one, and
  whose smoothed sample \<open>s\<close> is finite, the re-measured median \<open>c\<close> differs from \<open>s\<close> by
  at most \<open>((1 + 2 ^ - 24) ^ 3 - 1) * (max \<bar>v - band\<bar> + max \<bar>v\<bar> + \<bar>m - s\<bar>)\<close>, the maxima
  over the samples \<open>v\<close> of \<open>vs\<close>, where \<open>m\<close> is the median of \<open>vs\<close> and
  \<open>band = fl32 (m - s)\<close> the residual of the line: the median commutes with subtracting
  the residual up to the rounding of the subtractions and of the mean of two middle
  samples, not exactly.
\<close>

theorem corrected_profile_tracks_slow_profile:
  assumes "r < length img"
    and "reference_stripe img bw off ! r = map Fin vs" and "vs \<noteq> []"
    and "moving_average_1d_f32 dot (map np_median_f32 (reference_stripe img bw off)) w = Inr ref_slow"
    and "ref_slow ! r = Fin s"
  shows "\<exists>corrected_ref m c.
           corrected_ref_of_f32 dot (reference_stripe img bw off)
             (map np_median_f32 (reference_stripe img bw off)) w = Inr corrected_ref
         \<and> length corrected_ref = length img \<and> length ref_slow = length img
         \<and> np_median_f32 (map Fin vs) = Fin m
         \<and> corrected_ref ! r = Fin c
         \<and> \<bar>c - s\<bar> \<le> ((1 + 1 / 2 ^ 24) ^ 3 - 1)
               * (Max ((\<lambda>v. \<bar>v - fl32 (m - s)\<bar>) ` set vs) + Max (abs ` set vs) + \<bar>m - s\<bar>)"
proof -
  let ?S = "reference_stripe img bw off"
  let ?ref = "map np_median_f32 ?S"
  let ?band = "map (\<lambda>(x, y). fsub32 x y) (zip ?ref ref_slow)"
  let ?cr = "map np_median_f32 (map (\<lambda>(row, b). map (\<lambda>v. fsub32 v b) row) (zip ?S ?band))"
  have lS: "length ?S = length img" by (simp add: reference_stripe_rows)
  have ls: "length ref_slow = length img"
    using moving_average_1d_f32_Inr_length [OF assms(4)] lS by simp
  obtain m where m: "np_median_f32 (map Fin vs) = Fin m"
    using np_median_f32_Fin [OF assms(3)] by blast
  have refr: "?ref ! r = Fin m" using assms(1,2) lS m by simp
  have bandr: "?band ! r = Fin (fl32 (m - s))"
    using assms(1,5) lS ls refr by simp
  have crr: "?cr ! r = np_median_f32 (map (\<lambda>v. fsub32 v (Fin (fl32 (m - s)))) (map Fin vs))"
    using assms(1,2) lS ls bandr by simp
  obtain c where c: "?cr ! r = Fin c"
    "\<bar>c - s\<bar> \<le> ((1 + 1 / 2 ^ 24) ^ 3 - 1)
        * (Max ((\<lambda>v. \<bar>v - fl32 (m - s)\<bar>) ` set vs) + Max (abs ` set vs) + \<bar>m - s\<bar>)"
    using corrected_median_err [OF assms(3) m, of s] unfolding crr by blast
  have "corrected_ref_of_f32 dot ?S ?ref w = Inr ?cr"
    by (rule corrected_ref_of_f32_Inr [OF assms(4)])
  moreover have "length ?cr = length img" using lS ls by simp
  ultimately show ?thesis using ls m c by blast
qed

theorem corrected_profile_tracks_slow_profile_witness:
  "1 < length [[0], [1], [0 :: u16]]
   \<and> reference_stripe [[0], [1], [0]] 1 0 ! 1 = map Fin [1]
   \<and> [1 :: real] \<noteq> []
   \<and> moving_average_1d_f32 dot_seq32 (map np_median_f32 (reference_stripe [[0], [1], [0]] 1 0)) 3
       = Inr [Fin (11184811 / 33554432), Fin (11184811 / 33554432), Fin (11184811 / 33554432)]
   \<and> [Fin (11184811 / 33554432), Fin (11184811 / 33554432), Fin (11184811 / 33554432)] ! 1
       = Fin (11184811 / 33554432)
   \<and> corrected_ref_of_f32 dot_seq32 (reference_stripe [[0], [1], [0]] 1 0)
         (map np_median_f32 (reference_stripe [[0], [1], [0]] 1 0)) 3
       = Inr [Fin (11184811 / 33554432), Fin (2796203 / 8388608), Fin (11184811 / 33554432)]
   \<and> \<bar>2796203 / 8388608 - 11184811 / 33554432 :: real\<bar>
       \<le> ((1 + 1 / 2 ^ 24) ^ 3 - 1)
          * (\<bar>1 - 5592405 / 8388608\<bar> + \<bar>1\<bar> + \<bar>1 - 11184811 / 33554432\<bar>)"
proof -
  let ?k = "11184811 / 33554432 :: real"
  let ?S = "reference_stripe [[0], [1], [0]] 1 0"
  have h1: "1 < length [[0], [1], [0 :: u16]]" by simp
  have h2: "?S ! 1 = map Fin [1]" by (simp add: eval_defs)
  have h3: "[1 :: real] \<noteq> []" by simp
  have h4: "moving_average_1d_f32 dot_seq32 (map np_median_f32 ?S) 3 = Inr [Fin ?k, Fin ?k, Fin ?k]"
    by (simp add: eval32_defs eval_defs)
  have h5: "[Fin ?k, Fin ?k, Fin ?k] ! 1 = Fin ?k" by simp
  have v: "corrected_ref_of_f32 dot_seq32 ?S (map np_median_f32 ?S) 3
             = Inr [Fin ?k, Fin (2796203 / 8388608), Fin ?k]"
    by (simp add: eval32_defs eval_defs)
  have m1: "np_median_f32 (map Fin [1]) = Fin 1" by (simp add: np_median_f32_def)
  from corrected_profile_tracks_slow_profile [OF h1 h2 h3 h4 h5]
  obtain cr m c where cr: "corrected_ref_of_f32 dot_seq32 ?S (map np_median_f32 ?S) 3 = Inr cr"
    and m: "np_median_f32 (map Fin [1]) = Fin m" and c: "cr ! 1 = Fin c"
    and b: "\<bar>c - ?k\<bar> \<le> ((1 + 1 / 2 ^ 24) ^ 3 - 1)
               * (Max ((\<lambda>v. \<bar>v - fl32 (m - ?k)\<bar>) ` set [1]) + Max (abs ` set [1]) + \<bar>m - ?k\<bar>)"
    by blast
  from cr v have "cr = [Fin ?k, Fin (2796203 / 8388608), Fin ?k]" by simp
  with c have c': "c = 2796203 / 8388608" by simp
  from m m1 have m': "m = 1" by simp
  have f: "fl32 (1 - ?k) = 5592405 / 8388608" by simp
  from b have "\<bar>2796203 / 8388608 - ?k\<bar>
       \<le> ((1 + 1 / 2 ^ 24) ^ 3 - 1) * (\<bar>1 - 5592405 / 8388608\<bar> + \<bar>1\<bar> + \<bar>1 - ?k\<bar>)"
    unfolding c' m' f by simp
  with h1 h2 h3 h4 h5 v show ?thesis by blast
qed


end
